theory Spec2Isabelle
  imports Main "HOL-Library.Word" "HOL-Library.Sublist"
begin

section \<open>etcdctl make-mirror: the data the command works on\<close>

text \<open>
  The embedding follows \<^verbatim>\<open>etcdctl/ctlv3/command/make_mirror_command.go\<close>.
  Go's \<^verbatim>\<open>int64\<close> and \<^verbatim>\<open>uint\<close> (on a 64-bit platform) are 64-bit words where the code
  computes with them (\<^verbatim>\<open>mmrev - 1\<close>, \<^verbatim>\<open>int(mmmaxTxnOps)\<close>, \<^verbatim>\<open>atomic.AddInt64\<close>).
  \<^verbatim>\<open>ModRevision\<close> and \<^verbatim>\<open>CompactRevision\<close> are only compared, never computed with, so
  they are given by their integer value.
\<close>

type_synonym int64 = "64 word"
type_synonym uint = "64 word"

text \<open>\<^verbatim>\<open>mvccpb.Event_EventType\<close>: PUT, DELETE, and any other number the wire may carry.\<close>

datatype EventType = PUT | DELETE | UNKNOWN int

record KeyValue =
  Key :: string
  Value :: string
  ModRevision :: int

record Event =
  Type :: EventType
  Kv :: KeyValue

record WatchResponse =
  CompactRevision :: int
  Events :: "Event list"

text \<open>\<^verbatim>\<open>clientv3.Op\<close>, as far as the command builds it.\<close>

datatype Op = OpPut string string | OpDelete string

datatype error = ErrCompacted | Err string

text \<open>
  The exit codes the source names, \<^verbatim>\<open>cobrautl.ExitError\<close> and \<^verbatim>\<open>cobrautl.ExitBadArgs\<close>, and
  any other code a client constructor may exit with.
\<close>

datatype exit_code = ExitError | ExitBadArgs | ExitCode int

text \<open>The package-level flag variables the command reads.\<close>

record flags =
  mmprefix :: string
  mmdestprefix :: string
  mmuser :: string
  mmpassword :: string
  mmnodestprefix :: bool
  mmrev :: int64
  mmmaxTxnOps :: uint

text \<open>
  A request to the destination client \<^verbatim>\<open>dc\<close>, and everything the command does to the
  outside, in order. A destination call is logged with the answer it got
  (\<open>None\<close>: no error).
\<close>

datatype request = Put string string | Txn "Op list"

record AuthConfig =
  Username :: string
  Password :: string

datatype effect =
    Ask
  | MustClient string "AuthConfig option"
  | MustClientFromCmd
  | GoProgress
  | NewSyncer string int64
  | SyncBase
  | SyncUpdates
  | DcPut string string "error option"
  | DcTxn "Op list" "error option"

text \<open>
  The destination store answers a request knowing everything that happened before it,
  so any sequence of successes and failures is a store.
\<close>

type_synonym store = "effect list \<Rightarrow> request \<Rightarrow> error option"

text \<open>
  What the collaborators give the command. They are not part of the source file and
  enter as parameters: the password prompt \<^verbatim>\<open>speakeasy.Ask\<close>, the two client constructors
  \<^verbatim>\<open>mustClient\<close> and \<^verbatim>\<open>mustClientFromCmd\<close> (\<open>None\<close>: a client; otherwise the constructor
  leaves the process), the snapshot stream \<^verbatim>\<open>rc\<close> of \<^verbatim>\<open>Syncer.SyncBase\<close> with its error
  channel \<^verbatim>\<open>errc\<close>, the watch stream \<^verbatim>\<open>wc\<close> of \<^verbatim>\<open>Syncer.SyncUpdates\<close> up to the point
  where it is closed, and the destination store behind \<^verbatim>\<open>dc\<close>. The readers of the
  connection flags (\<^verbatim>\<open>dialTimeoutFromCmd\<close> and the like) and the TLS flags only fill the
  configuration passed to \<^verbatim>\<open>mustClient\<close> and are left out.
\<close>

record env =
  ask :: "error + string"
  mustClient :: "(exit_code \<times> error) option"
  mustClientFromCmd :: "(exit_code \<times> error) option"
  syncBase :: "KeyValue list list \<times> error option"
  syncUpdates :: "WatchResponse list"
  dc :: store

text \<open>The counter \<^verbatim>\<open>total\<close> and the log of effects.\<close>

record mstate =
  total :: int64
  trace :: "effect list"

text \<open>
  Modelled from the spec: \<^verbatim>\<open>cobrautl.ExitWithError\<close> is not in the source file; by the
  specification a terminal error is printed and the process exits with a non-zero
  status, so a call of it ends the run there.

  How \<^verbatim>\<open>makeMirror\<close> is left: by \<^verbatim>\<open>return err\<close> (\<open>None\<close> is \<^verbatim>\<open>nil\<close>), by \<^verbatim>\<open>panic\<close>, or by
  \<^verbatim>\<open>cobrautl.ExitWithError\<close>.
\<close>

datatype outcome = Return "error option" | Panic string | Exit exit_code "error option"

section \<open>modifyPrefix\<close>

text \<open>
  \<^verbatim>\<open>strings.Replace(s, old, new, 1)\<close> of the Go library: the first occurrence of \<open>old\<close>
  is replaced; an empty \<open>old\<close> matches at the start of \<open>s\<close>; no occurrence leaves \<open>s\<close>.
\<close>

fun strings_Replace_1 :: "string \<Rightarrow> string \<Rightarrow> string \<Rightarrow> string" where
  "strings_Replace_1 [] old new = (if old = [] then new else [])"
| "strings_Replace_1 (c # s) old new =
     (if prefix old (c # s) then new @ drop (length old) (c # s)
      else c # strings_Replace_1 s old new)"

definition modifyPrefix :: "flags \<Rightarrow> string \<Rightarrow> string" where
  "modifyPrefix fl key = strings_Replace_1 key (mmprefix fl) (mmdestprefix fl)"

section \<open>makeMirror\<close>

definition dcPut :: "store \<Rightarrow> string \<Rightarrow> string \<Rightarrow> mstate \<Rightarrow> error option \<times> mstate" where
  "dcPut dst k v s =
     (let r = dst (trace s) (Put k v) in (r, s\<lparr>trace := trace s @ [DcPut k v r]\<rparr>))"

definition dcTxn :: "store \<Rightarrow> Op list \<Rightarrow> mstate \<Rightarrow> error option \<times> mstate" where
  "dcTxn dst ops s =
     (let r = dst (trace s) (Txn ops) in (r, s\<lparr>trace := trace s @ [DcTxn ops r]\<rparr>))"

text \<open>The snapshot loops: \<^verbatim>\<open>for _, kv := range r.Kvs\<close> inside \<^verbatim>\<open>for r := range rc\<close>.\<close>

fun kvsLoop :: "store \<Rightarrow> flags \<Rightarrow> KeyValue list \<Rightarrow> mstate \<Rightarrow> error option \<times> mstate" where
  "kvsLoop dst fl [] s = (None, s)"
| "kvsLoop dst fl (kv # kvs) s =
     (case dcPut dst (modifyPrefix fl (Key kv)) (Value kv) s of
        (Some err, s') \<Rightarrow> (Some err, s')
      | (None, s') \<Rightarrow> kvsLoop dst fl kvs (s'\<lparr>total := total s' + 1\<rparr>))"

fun rcLoop :: "store \<Rightarrow> flags \<Rightarrow> KeyValue list list \<Rightarrow> mstate \<Rightarrow> error option \<times> mstate" where
  "rcLoop dst fl [] s = (None, s)"
| "rcLoop dst fl (r # rs) s =
     (case kvsLoop dst fl r s of
        (Some err, s') \<Rightarrow> (Some err, s')
      | (None, s') \<Rightarrow> rcLoop dst fl rs s')"

text \<open>
  \<^verbatim>\<open>dc.Txn(ctx).Then(ops...).Commit()\<close> followed by \<^verbatim>\<open>ops = []clientv3.Op{}\<close>; on an
  error the function returns it, with \<^verbatim>\<open>ops\<close> as it was.
\<close>

definition flush ::
  "store \<Rightarrow> Op list \<Rightarrow> mstate \<Rightarrow> (outcome \<times> Op list \<times> mstate) + (Op list \<times> mstate)" where
  "flush dst ops s =
     (case dcTxn dst ops s of
        (Some err, s') \<Rightarrow> Inl (Return (Some err), ops, s')
      | (None, s') \<Rightarrow> Inr ([], s'))"

text \<open>The \<^verbatim>\<open>switch ev.Type\<close>: the operation of a PUT or a DELETE, nothing for another type.\<close>

definition classify :: "flags \<Rightarrow> Event \<Rightarrow> Op option" where
  "classify fl ev =
     (case Type ev of
        PUT \<Rightarrow> Some (OpPut (modifyPrefix fl (Key (Kv ev))) (Value (Kv ev)))
      | DELETE \<Rightarrow> Some (OpDelete (modifyPrefix fl (Key (Kv ev))))
      | UNKNOWN n \<Rightarrow> None)"

text \<open>
  One turn of \<^verbatim>\<open>for _, ev := range wr.Events\<close>, in the three blocks of the source.
  \<open>Inl\<close> leaves \<^verbatim>\<open>makeMirror\<close>, with the local \<^verbatim>\<open>ops\<close> at that point; \<open>Inr\<close> carries
  \<^verbatim>\<open>ops\<close> and the state on.

  First \<^verbatim>\<open>if lastRev != 0 && nextRev > lastRev\<close>, with its commit.
\<close>

definition revFlush ::
  "store \<Rightarrow> Event \<Rightarrow> int \<Rightarrow> Op list \<Rightarrow> mstate \<Rightarrow>
     (outcome \<times> Op list \<times> mstate) + (Op list \<times> mstate)" where
  "revFlush dst ev lastRev ops s =
     (let nextRev = ModRevision (Kv ev) in
      if lastRev \<noteq> 0 \<and> nextRev > lastRev then flush dst ops s else Inr (ops, s))"

text \<open>Then \<^verbatim>\<open>if len(ops) == int(mmmaxTxnOps)\<close>, with its commit.\<close>

definition sizeFlush ::
  "store \<Rightarrow> flags \<Rightarrow> Op list \<Rightarrow> mstate \<Rightarrow>
     (outcome \<times> Op list \<times> mstate) + (Op list \<times> mstate)" where
  "sizeFlush dst fl ops s =
     (if int (length ops) = sint (mmmaxTxnOps fl) then flush dst ops s else Inr (ops, s))"

text \<open>Then the \<^verbatim>\<open>switch\<close>: append and count, or panic. \<^verbatim>\<open>lastRev\<close> is \<^verbatim>\<open>nextRev\<close> by now.\<close>

definition appendOp ::
  "flags \<Rightarrow> Event \<Rightarrow> Op list \<Rightarrow> mstate \<Rightarrow>
     (outcome \<times> Op list \<times> mstate) + (int \<times> Op list \<times> mstate)" where
  "appendOp fl ev ops s =
     (case classify fl ev of
        Some op \<Rightarrow> Inr (ModRevision (Kv ev), ops @ [op], s\<lparr>total := total s + 1\<rparr>)
      | None \<Rightarrow> Inl (Panic ''unexpected event type'', ops, s))"

definition eventStep ::
  "store \<Rightarrow> flags \<Rightarrow> Event \<Rightarrow> int \<Rightarrow> Op list \<Rightarrow> mstate \<Rightarrow>
     (outcome \<times> Op list \<times> mstate) + (int \<times> Op list \<times> mstate)" where
  "eventStep dst fl ev lastRev ops s =
     (case revFlush dst ev lastRev ops s of
        Inl a \<Rightarrow> Inl a
      | Inr (ops1, s1) \<Rightarrow>
          (case sizeFlush dst fl ops1 s1 of
             Inl a \<Rightarrow> Inl a
           | Inr (ops2, s2) \<Rightarrow> appendOp fl ev ops2 s2))"

fun eventsLoop ::
  "store \<Rightarrow> flags \<Rightarrow> Event list \<Rightarrow> int \<Rightarrow> Op list \<Rightarrow> mstate \<Rightarrow>
     (outcome \<times> Op list \<times> mstate) + (Op list \<times> mstate)" where
  "eventsLoop dst fl [] lastRev ops s = Inr (ops, s)"
| "eventsLoop dst fl (ev # evs) lastRev ops s =
     (case eventStep dst fl ev lastRev ops s of
        Inl a \<Rightarrow> Inl a
      | Inr (lastRev', ops', s') \<Rightarrow> eventsLoop dst fl evs lastRev' ops' s')"

text \<open>
  The body of \<^verbatim>\<open>for wr := range wc\<close>: the compaction check, \<^verbatim>\<open>var lastRev int64\<close> and
  \<^verbatim>\<open>var ops []clientv3.Op\<close> (zero and nil), the events, and the last commit.
  \<open>Inr\<close> goes on to the next response; the locals end with the body.
\<close>

definition watchResponse ::
  "store \<Rightarrow> flags \<Rightarrow> WatchResponse \<Rightarrow> mstate \<Rightarrow> (outcome \<times> Op list \<times> mstate) + mstate" where
  "watchResponse dst fl wr s =
     (if CompactRevision wr \<noteq> 0 then Inl (Return (Some ErrCompacted), [], s)
      else case eventsLoop dst fl (Events wr) 0 [] s of
             Inl a \<Rightarrow> Inl a
           | Inr (ops, s') \<Rightarrow>
               (if length ops \<noteq> 0
                then (case flush dst ops s' of Inl a \<Rightarrow> Inl a | Inr (ops', s'') \<Rightarrow> Inr s'')
                else Inr s'))"

text \<open>
  \<^verbatim>\<open>for wr := range wc\<close> and the \<^verbatim>\<open>return nil\<close> after it, on a watch stream that is closed
  after the responses given. The second component of the result is the local \<^verbatim>\<open>ops\<close>
  where the function is left inside the loop body, and empty otherwise.
\<close>

fun wcLoop ::
  "store \<Rightarrow> flags \<Rightarrow> WatchResponse list \<Rightarrow> mstate \<Rightarrow> outcome \<times> Op list \<times> mstate" where
  "wcLoop dst fl [] s = (Return None, [], s)"
| "wcLoop dst fl (wr # wrs) s =
     (case watchResponse dst fl wr s of
        Inl a \<Rightarrow> a
      | Inr s' \<Rightarrow> wcLoop dst fl wrs s')"

definition startRevOf :: "int64 \<Rightarrow> int64" where
  "startRevOf r = (let startRev = r - 1 in if sint startRev < 0 then 0 else startRev)"

text \<open>
  \<^verbatim>\<open>makeMirror\<close>. The flag check comes first. The goroutine that prints \<^verbatim>\<open>total\<close> every
  30 seconds only reads the counter; its start is logged and its output is not
  modelled. The assignment \<^verbatim>\<open>mmdestprefix = mmprefix\<close> is inside \<^verbatim>\<open>if startRev == 0\<close>, as
  in the source.
\<close>

definition errConflict :: error where
  "errConflict =
     Err ''`--dest-prefix` and `--no-dest-prefix` cannot be set at the same time, choose one''"

definition defaultDestPrefix :: "flags \<Rightarrow> flags" where
  "defaultDestPrefix fl =
     (if \<not> mmnodestprefix fl \<and> length (mmdestprefix fl) = 0
      then fl\<lparr>mmdestprefix := mmprefix fl\<rparr> else fl)"

definition makeMirror :: "env \<Rightarrow> flags \<Rightarrow> outcome \<times> Op list \<times> mstate" where
  "makeMirror e fl =
     (if mmnodestprefix fl \<and> length (mmdestprefix fl) > 0
      then (Exit ExitBadArgs (Some errConflict), [], \<lparr>total = 0, trace = []\<rparr>)
      else
        let startRev = startRevOf (mmrev fl);
            s1 = \<lparr>total = 0, trace = [GoProgress, NewSyncer (mmprefix fl) startRev]\<rparr>
        in if startRev = 0
           then
             (let s2 = s1\<lparr>trace := trace s1 @ [SyncBase]\<rparr>;
                  fl' = defaultDestPrefix fl
              in case rcLoop (dc e) fl' (fst (syncBase e)) s2 of
                   (Some err, s3) \<Rightarrow> (Return (Some err), [], s3)
                 | (None, s3) \<Rightarrow>
                     (case snd (syncBase e) of
                        Some err \<Rightarrow> (Return (Some err), [], s3)
                      | None \<Rightarrow>
                          wcLoop (dc e) fl' (syncUpdates e) (s3\<lparr>trace := trace s3 @ [SyncUpdates]\<rparr>)))
           else wcLoop (dc e) fl (syncUpdates e) (s1\<lparr>trace := trace s1 @ [SyncUpdates]\<rparr>))"

text \<open>The flags in force while the loops run: the global \<^verbatim>\<open>mmdestprefix\<close> after that assignment.\<close>

definition runFlags :: "flags \<Rightarrow> flags" where
  "runFlags fl = (if startRevOf (mmrev fl) = 0 then defaultDestPrefix fl else fl)"

section \<open>makeMirrorCommandFunc\<close>

text \<open>
  \<^verbatim>\<open>authDestCfg\<close>: \<^verbatim>\<open>strings.SplitN(mmuser, ":", 2)\<close> has fewer than two parts exactly when
  \<^verbatim>\<open>mmuser\<close> has no colon. \<open>Inl\<close> is the exit after a failed prompt.
\<close>

definition authDestCfg ::
  "env \<Rightarrow> flags \<Rightarrow> (exit_code \<times> error) + (AuthConfig option \<times> effect list)" where
  "authDestCfg e fl =
     (if mmuser fl = [] then Inr (None, [])
      else if mmpassword fl = [] then
        (if CHR '':'' \<notin> set (mmuser fl) then
           (case ask e of
              Inl err \<Rightarrow> Inl (ExitError, err)
            | Inr pw \<Rightarrow> Inr (Some \<lparr>Username = mmuser fl, Password = pw\<rparr>, [Ask]))
         else Inr (Some \<lparr>Username = takeWhile (\<lambda>c. c \<noteq> CHR '':'') (mmuser fl),
                         Password = tl (dropWhile (\<lambda>c. c \<noteq> CHR '':'') (mmuser fl))\<rparr>, []))
      else Inr (Some \<lparr>Username = mmuser fl, Password = mmpassword fl\<rparr>, []))"

text \<open>
  How the process ends: \<^verbatim>\<open>ExitWithError\<close> prints its error and exits with the code; an
  unrecovered panic is printed by the Go runtime, which then ends the process.
\<close>

datatype process_end = Exited exit_code "error option" | Panicked string

text \<open>
  \<^verbatim>\<open>makeMirrorCommandFunc\<close>: both clients are built before \<^verbatim>\<open>makeMirror\<close> is called, and
  whatever \<^verbatim>\<open>makeMirror\<close> returns, \<^verbatim>\<open>nil\<close> too, goes to \<^verbatim>\<open>ExitWithError\<close>.
\<close>

definition makeMirrorCommandFunc ::
  "env \<Rightarrow> flags \<Rightarrow> string list \<Rightarrow> process_end \<times> effect list" where
  "makeMirrorCommandFunc e fl args =
     (if length args \<noteq> 1
      then (Exited ExitBadArgs (Some (Err ''make-mirror takes one destination argument'')), [])
      else case authDestCfg e fl of
             Inl (code, err) \<Rightarrow> (Exited code (Some err), [Ask])
           | Inr (auth, t0) \<Rightarrow>
               (case mustClient e of
                  Some (code, err) \<Rightarrow> (Exited code (Some err), t0 @ [MustClient (hd args) auth])
                | None \<Rightarrow>
                    (case mustClientFromCmd e of
                       Some (code, err) \<Rightarrow>
                         (Exited code (Some err), t0 @ [MustClient (hd args) auth, MustClientFromCmd])
                     | None \<Rightarrow>
                         (let t1 = t0 @ [MustClient (hd args) auth, MustClientFromCmd] in
                          case makeMirror e fl of
                            (Return err, ops, s) \<Rightarrow> (Exited ExitError err, t1 @ trace s)
                          | (Panic msg, ops, s) \<Rightarrow> (Panicked msg, t1 @ trace s)
                          | (Exit code err, ops, s) \<Rightarrow> (Exited code err, t1 @ trace s)))))"

section \<open>Projections of the log\<close>

text \<open>The transactions and the Puts the destination accepted, and all Puts handed to it.\<close>

fun committed :: "effect list \<Rightarrow> Op list list" where
  "committed [] = []"
| "committed (DcTxn ops None # t) = ops # committed t"
| "committed (x # t) = committed t"

fun putsOk :: "effect list \<Rightarrow> (string \<times> string) list" where
  "putsOk [] = []"
| "putsOk (DcPut k v None # t) = (k, v) # putsOk t"
| "putsOk (x # t) = putsOk t"

fun puts :: "effect list \<Rightarrow> (string \<times> string) list" where
  "puts [] = []"
| "puts (DcPut k v r # t) = (k, v) # puts t"
| "puts (x # t) = puts t"

text \<open>A store that accepts every request.\<close>

definition accepts :: "store \<Rightarrow> bool" where
  "accepts dst = (\<forall>h r. dst h r = None)"

definition okStore :: store where
  "okStore h r = None"

text \<open>Effects of the run itself, as opposed to building the two clients before it.\<close>

fun runEffect :: "effect \<Rightarrow> bool" where
  "runEffect Ask = False"
| "runEffect (MustClient a c) = False"
| "runEffect MustClientFromCmd = False"
| "runEffect x = True"

fun isTxn :: "effect \<Rightarrow> bool" where
  "isTxn (DcTxn ops r) = True"
| "isTxn x = False"

text \<open>An event the \<^verbatim>\<open>switch\<close> has a case for, and a response the loop body gets through.\<close>

definition known :: "Event \<Rightarrow> bool" where
  "known ev = (Type ev = PUT \<or> Type ev = DELETE)"

definition clean :: "WatchResponse \<Rightarrow> bool" where
  "clean wr = (CompactRevision wr = 0 \<and> list_all known (Events wr))"

text \<open>
  What the destination has taken: one for each Put it accepted and one for each
  operation of a transaction it accepted.
\<close>

definition enqueued :: "effect list \<Rightarrow> nat" where
  "enqueued t = length (putsOk t) + length (concat (committed t))"

definition counterOk :: "Op list \<Rightarrow> mstate \<Rightarrow> bool" where
  "counterOk ops s = (total s = of_nat (enqueued (trace s) + length ops))"

text \<open>A store that accepts every Put and rejects every transaction.\<close>

definition rejectTxn :: store where
  "rejectTxn h r = (case r of Put k v \<Rightarrow> None | Txn ops \<Rightarrow> Some (Err ''unavailable''))"

section \<open>The event loop when every commit is accepted\<close>

text \<open>
  With a destination that accepts every commit and events that are all PUT or DELETE,
  a turn of the event loop is determined by \<^verbatim>\<open>lastRev\<close> and \<^verbatim>\<open>ops\<close> alone. The functions
  below give the transactions a turn hands over and the \<^verbatim>\<open>ops\<close> it leaves; the lemmas
  \<open>eventStep_accepts\<close> to \<open>makeMirror_accepts\<close> show that the loops of the command
  compute exactly these. They serve the proofs; the theorems are stated on the command.
\<close>

definition opOf :: "flags \<Rightarrow> Event \<Rightarrow> Op" where
  "opOf fl ev = the (classify fl ev)"

definition revOf :: "Event \<Rightarrow> int" where
  "revOf ev = ModRevision (Kv ev)"

definition stepTxns :: "flags \<Rightarrow> Event \<Rightarrow> int \<Rightarrow> Op list \<Rightarrow> Op list list" where
  "stepTxns fl ev lastRev ops =
     (if lastRev \<noteq> 0 \<and> revOf ev > lastRev
      then [ops] @ (if 0 = sint (mmmaxTxnOps fl) then [[]] else [])
      else if int (length ops) = sint (mmmaxTxnOps fl) then [ops] else [])"

definition stepOps :: "flags \<Rightarrow> Event \<Rightarrow> int \<Rightarrow> Op list \<Rightarrow> Op list" where
  "stepOps fl ev lastRev ops =
     (if (lastRev \<noteq> 0 \<and> revOf ev > lastRev) \<or> int (length ops) = sint (mmmaxTxnOps fl)
      then [opOf fl ev] else ops @ [opOf fl ev])"

fun loopTxns :: "flags \<Rightarrow> Event list \<Rightarrow> int \<Rightarrow> Op list \<Rightarrow> Op list list" where
  "loopTxns fl [] lastRev ops = []"
| "loopTxns fl (ev # evs) lastRev ops =
     stepTxns fl ev lastRev ops @ loopTxns fl evs (revOf ev) (stepOps fl ev lastRev ops)"

fun loopOps :: "flags \<Rightarrow> Event list \<Rightarrow> int \<Rightarrow> Op list \<Rightarrow> Op list" where
  "loopOps fl [] lastRev ops = ops"
| "loopOps fl (ev # evs) lastRev ops = loopOps fl evs (revOf ev) (stepOps fl ev lastRev ops)"

definition responseTxns :: "flags \<Rightarrow> Event list \<Rightarrow> Op list list" where
  "responseTxns fl evs =
     loopTxns fl evs 0 [] @ (if loopOps fl evs 0 [] \<noteq> [] then [loopOps fl evs 0 []] else [])"

definition txnOk :: "Op list \<Rightarrow> effect" where
  "txnOk ops = DcTxn ops None"

definition lastRevAfter :: "Event list \<Rightarrow> int \<Rightarrow> int" where
  "lastRevAfter evs lastRev = (if evs = [] then lastRev else revOf (last evs))"

text \<open>
  The transactions the destination accepted in a run of \<^verbatim>\<open>makeMirror\<close>, and in a run of
  the watch loop alone, started afresh.
\<close>

definition mirrorTxns :: "env \<Rightarrow> flags \<Rightarrow> Op list list" where
  "mirrorTxns e fl = committed (trace (snd (snd (makeMirror e fl))))"

definition watchTxns :: "store \<Rightarrow> flags \<Rightarrow> WatchResponse list \<Rightarrow> Op list list" where
  "watchTxns dst fl wrs = committed (trace (snd (snd (wcLoop dst fl wrs \<lparr>total = 0, trace = []\<rparr>))))"

section \<open>Well-formed responses and transactions\<close>

text \<open>
  What the change source promises of a response: its events are fewer than \<open>2 ^ 63\<close>
  (it is a Go slice), their revisions are positive, and they come in non-decreasing
  order of revision.
\<close>

definition ordered :: "WatchResponse \<Rightarrow> bool" where
  "ordered wr =
     (length (Events wr) < 2 ^ 63 \<and> list_all (\<lambda>ev. 0 < revOf ev) (Events wr)
      \<and> sorted (map revOf (Events wr)))"

text \<open>
  A transaction as the batching intends it: not empty, within the limit, and made of
  the operations of consecutive events of one response that share a revision.
\<close>

definition goodTxn :: "flags \<Rightarrow> Event list \<Rightarrow> Op list \<Rightarrow> bool" where
  "goodTxn fl es ops =
     (ops \<noteq> [] \<and> length ops \<le> unat (mmmaxTxnOps fl)
      \<and> (\<exists>seg r. sublist seg es \<and> map Some ops = map (classify fl) seg
             \<and> list_all (\<lambda>ev. revOf ev = r) seg))"

fun goodEffect :: "flags \<Rightarrow> Event list \<Rightarrow> effect \<Rightarrow> bool" where
  "goodEffect fl es (DcTxn ops r) = goodTxn fl es ops"
| "goodEffect fl es x = False"

text \<open>
  The invariant of the event loop, for a response \<open>dn @ pend @ evs\<close>: \<open>dn\<close> are the events
  already handed over, \<open>pend\<close> those whose operations are in \<^verbatim>\<open>ops\<close>, \<open>evs\<close> those to come.
  The second form holds between the blocks of one turn, for the event \<open>ev\<close> of the turn.
\<close>

definition loopInv :: "flags \<Rightarrow> Event list \<Rightarrow> Event list \<Rightarrow> Event list \<Rightarrow> int \<Rightarrow> Op list \<Rightarrow> bool" where
  "loopInv fl dn pend evs lastRev ops =
     (map Some ops = map (classify fl) pend
      \<and> list_all (\<lambda>e. revOf e = lastRev) pend
      \<and> ((lastRev = 0 \<and> pend = []) \<or> (lastRev \<noteq> 0 \<and> pend \<noteq> []))
      \<and> list_all (\<lambda>e. lastRev \<le> revOf e \<and> 0 < revOf e) evs
      \<and> sorted (map revOf evs)
      \<and> length ops \<le> unat (mmmaxTxnOps fl)
      \<and> length (dn @ pend @ evs) < 2 ^ 63)"

definition midInv :: "flags \<Rightarrow> Event list \<Rightarrow> Event list \<Rightarrow> Event \<Rightarrow> Event list \<Rightarrow> Op list \<Rightarrow> bool" where
  "midInv fl dn pend ev evs ops =
     (map Some ops = map (classify fl) pend
      \<and> list_all (\<lambda>e. revOf e = revOf ev) pend
      \<and> 0 < revOf ev
      \<and> list_all (\<lambda>e. revOf ev \<le> revOf e \<and> 0 < revOf e) evs
      \<and> sorted (map revOf evs)
      \<and> length ops \<le> unat (mmmaxTxnOps fl)
      \<and> length (dn @ pend @ ev # evs) < 2 ^ 63)"

section \<open>Concrete runs\<close>

definition flA :: flags where
  "flA = \<lparr>mmprefix = ''/a/'', mmdestprefix = [], mmuser = [], mmpassword = [],
           mmnodestprefix = False, mmrev = 0, mmmaxTxnOps = 128\<rparr>"

definition putEv :: "string \<Rightarrow> string \<Rightarrow> int \<Rightarrow> Event" where
  "putEv k v r = \<lparr>Type = PUT, Kv = \<lparr>Key = k, Value = v, ModRevision = r\<rparr>\<rparr>"

definition kvA :: KeyValue where
  "kvA = \<lparr>Key = ''/a/1'', Value = ''v'', ModRevision = 3\<rparr>"

definition flConflict :: flags where
  "flConflict = flA\<lparr>mmnodestprefix := True, mmdestprefix := ''/b/''\<rparr>"

definition wrOne :: WatchResponse where
  "wrOne = \<lparr>CompactRevision = 0, Events = [putEv ''/a/1'' ''v'' 5]\<rparr>"

definition wrCompacted :: WatchResponse where
  "wrCompacted = \<lparr>CompactRevision = 7, Events = [putEv ''/a/2'' ''w'' 8]\<rparr>"

definition evBad :: Event where
  "evBad = \<lparr>Type = UNKNOWN 2, Kv = \<lparr>Key = ''/a/3'', Value = ''x'', ModRevision = 6\<rparr>\<rparr>"

definition wrBad :: WatchResponse where
  "wrBad = \<lparr>CompactRevision = 0, Events = [putEv ''/a/2'' ''w'' 6, evBad, putEv ''/a/4'' ''y'' 6]\<rparr>"

definition stAhead :: mstate where
  "stAhead =
     \<lparr>total = 2,
      trace = [GoProgress, NewSyncer ''/a/'' 0, SyncBase, DcPut ''/a/1'' ''v'' None, SyncUpdates,
               DcTxn [OpPut ''/a/1'' ''v''] (Some (Err ''unavailable''))]\<rparr>"

definition ev51 :: Event where "ev51 = putEv ''/a/1'' ''x'' 5"

definition ev52 :: Event where "ev52 = putEv ''/a/2'' ''y'' 5"

definition ev53 :: Event where "ev53 = putEv ''/a/3'' ''z'' 5"

definition ev6 :: Event where "ev6 = putEv ''/a/4'' ''u'' 6"

definition resp :: "Event list \<Rightarrow> WatchResponse" where
  "resp evs = \<lparr>CompactRevision = 0, Events = evs\<rparr>"

text \<open>The flags of the specification's example: \<^verbatim>\<open>/a/\<close> to \<^verbatim>\<open>/b/\<close>, two operations at most.\<close>

definition flMax2 :: flags where
  "flMax2 = flA\<lparr>mmdestprefix := ''/b/'', mmmaxTxnOps := 2\<rparr>"

definition envA :: "KeyValue list list \<Rightarrow> WatchResponse list \<Rightarrow> store \<Rightarrow> env" where
  "envA base wrs dst =
     \<lparr>ask = Inr [], mustClient = None, mustClientFromCmd = None,
      syncBase = (base, None), syncUpdates = wrs, dc = dst\<rparr>"

section \<open>The prefix mapping\<close>

lemmas run_defs =
  makeMirror_def makeMirrorCommandFunc_def authDestCfg_def startRevOf_def
  defaultDestPrefix_def runFlags_def watchResponse_def eventStep_def revFlush_def sizeFlush_def
  appendOp_def classify_def flush_def
  dcTxn_def dcPut_def modifyPrefix_def okStore_def flA_def putEv_def envA_def kvA_def
  flConflict_def errConflict_def Let_def ev51_def ev52_def ev53_def ev6_def resp_def flMax2_def
  mirrorTxns_def watchTxns_def revOf_def wrOne_def wrCompacted_def evBad_def wrBad_def rejectTxn_def

lemma strings_Replace_1_same: "strings_Replace_1 s p p = s"
  by (induction s) (auto simp: prefix_def)

lemma modifyPrefix_defaulted:
  "\<not> mmnodestprefix fl \<Longrightarrow> mmdestprefix fl = [] \<Longrightarrow> modifyPrefix (defaultDestPrefix fl) key = key"
  by (simp add: modifyPrefix_def defaultDestPrefix_def strings_Replace_1_same)

text \<open>
  C1. With the destination prefix unset and no-dest-prefix not requested, keys should
  keep their source prefix whatever the starting revision. The default is assigned only
  inside \<^verbatim>\<open>if startRev == 0\<close>: with \<^verbatim>\<open>--rev 5\<close> and prefix \<^verbatim>\<open>/a/\<close>, the event
  \<^verbatim>\<open>PUT /a/1\<close> is committed as a Put of the key \<^verbatim>\<open>1\<close>: the prefix is replaced by the
  empty destination prefix.
\<close>

theorem C1_rev5_strips_prefix:
  "makeMirror (envA [] [\<lparr>CompactRevision = 0, Events = [putEv ''/a/1'' ''v'' 5]\<rparr>] okStore)
              (flA\<lparr>mmrev := 5\<rparr>)
   = (Return None, [],
      \<lparr>total = 1,
       trace = [GoProgress, NewSyncer ''/a/'' 4, SyncUpdates, DcTxn [OpPut ''1'' ''v''] None]\<rparr>)"
  by (simp add: run_defs)

section \<open>A turn of the event loop, block by block\<close>

lemma flush_eq:
  "flush dst ops s =
     (case dst (trace s) (Txn ops) of
        Some err \<Rightarrow> Inl (Return (Some err), ops, s\<lparr>trace := trace s @ [DcTxn ops (Some err)]\<rparr>)
      | None \<Rightarrow> Inr ([], s\<lparr>trace := trace s @ [DcTxn ops None]\<rparr>))"
  by (simp add: flush_def dcTxn_def Let_def split: option.splits)

lemma eventStep_Inr:
  assumes "eventStep dst fl ev lastRev ops s = Inr (lr, ops', s')"
  obtains ops1 s1 ops2 s2 where
    "revFlush dst ev lastRev ops s = Inr (ops1, s1)"
    "sizeFlush dst fl ops1 s1 = Inr (ops2, s2)"
    "appendOp fl ev ops2 s2 = Inr (lr, ops', s')"
  using assms by (auto simp: eventStep_def split: sum.splits)

lemma eventStep_Inl:
  assumes "eventStep dst fl ev lastRev ops s = Inl a"
  obtains (rev) "revFlush dst ev lastRev ops s = Inl a"
  | (size) ops1 s1 where "revFlush dst ev lastRev ops s = Inr (ops1, s1)"
      "sizeFlush dst fl ops1 s1 = Inl a"
  | (append) ops1 s1 ops2 s2 where "revFlush dst ev lastRev ops s = Inr (ops1, s1)"
      "sizeFlush dst fl ops1 s1 = Inr (ops2, s2)" "appendOp fl ev ops2 s2 = Inl a"
  using assms by (auto simp: eventStep_def split: sum.splits)

section \<open>What the watch loop adds to the log\<close>

lemma flush_trace:
  "flush dst ops s = Inl (out, ops', s') \<Longrightarrow> trace s' = trace s @ [DcTxn ops (dst (trace s) (Txn ops))]"
  "flush dst ops s = Inr (ops', s') \<Longrightarrow> trace s' = trace s @ [DcTxn ops None]"
  by (auto simp: flush_def dcTxn_def Let_def split: option.splits)

lemma flush_cases:
  obtains (fail) err where "dst (trace s) (Txn ops) = Some err"
      "flush dst ops s = Inl (Return (Some err), ops, s\<lparr>trace := trace s @ [DcTxn ops (Some err)]\<rparr>)"
  | (ok) "dst (trace s) (Txn ops) = None"
      "flush dst ops s = Inr ([], s\<lparr>trace := trace s @ [DcTxn ops None]\<rparr>)"
  by (cases "dst (trace s) (Txn ops)") (auto simp: flush_def dcTxn_def Let_def)

lemma eventStep_trace:
  "eventStep dst fl ev lastRev ops s = Inl (out, ops', s') \<Longrightarrow> \<exists>t. trace s' = trace s @ t \<and> list_all isTxn t"
  "eventStep dst fl ev lastRev ops s = Inr (lr, ops', s') \<Longrightarrow> \<exists>t. trace s' = trace s @ t \<and> list_all isTxn t"
  by (auto simp: eventStep_def revFlush_def sizeFlush_def appendOp_def Let_def flush_def dcTxn_def
      split: if_splits option.splits sum.splits prod.splits)

lemma eventsLoop_trace:
  "eventsLoop dst fl evs lastRev ops s = Inl (out, ops', s') \<or> eventsLoop dst fl evs lastRev ops s = Inr (ops', s')
     \<Longrightarrow> \<exists>t. trace s' = trace s @ t \<and> list_all isTxn t"
proof (induction evs arbitrary: lastRev ops s)
  case Nil
  then show ?case by auto
next
  case (Cons ev evs)
  show ?case
  proof (cases "eventStep dst fl ev lastRev ops s")
    case (Inl a)
    with Cons.prems have "eventStep dst fl ev lastRev ops s = Inl (out, ops', s')" by simp
    then show ?thesis by (rule eventStep_trace)
  next
    case (Inr b)
    obtain lr ops1 s1 where b: "b = (lr, ops1, s1)" by (cases b)
    from Inr b obtain t1 where t1: "trace s1 = trace s @ t1" "list_all isTxn t1"
      using eventStep_trace(2) by blast
    from Cons.prems Inr b
    have "eventsLoop dst fl evs lr ops1 s1 = Inl (out, ops', s') \<or> eventsLoop dst fl evs lr ops1 s1 = Inr (ops', s')"
      by simp
    from Cons.IH [OF this] obtain t2 where "trace s' = trace s1 @ t2" "list_all isTxn t2" by blast
    with t1 show ?thesis by auto
  qed
qed

lemma watchResponse_trace:
  "watchResponse dst fl wr s = Inl (out, ops', s') \<or> watchResponse dst fl wr s = Inr s'
     \<Longrightarrow> \<exists>t. trace s' = trace s @ t \<and> list_all isTxn t"
proof (cases "CompactRevision wr \<noteq> 0")
  case True
  assume "watchResponse dst fl wr s = Inl (out, ops', s') \<or> watchResponse dst fl wr s = Inr s'"
  with True show ?thesis by (auto simp: watchResponse_def)
next
  case False
  assume a: "watchResponse dst fl wr s = Inl (out, ops', s') \<or> watchResponse dst fl wr s = Inr s'"
  show ?thesis
  proof (cases "eventsLoop dst fl (Events wr) 0 [] s")
    case (Inl x)
    with a False have "eventsLoop dst fl (Events wr) 0 [] s = Inl (out, ops', s')"
      by (simp add: watchResponse_def)
    then show ?thesis using eventsLoop_trace by blast
  next
    case (Inr y)
    obtain ops1 s1 where y: "y = (ops1, s1)" by (cases y)
    from Inr y obtain t1 where t1: "trace s1 = trace s @ t1" "list_all isTxn t1"
      using eventsLoop_trace by blast
    show ?thesis
    proof (cases "ops1 = []")
      case True
      with a False Inr y have "s' = s1" by (simp add: watchResponse_def)
      with t1 show ?thesis by auto
    next
      case ne: False
      show ?thesis
      proof (cases rule: flush_cases [of dst s1 ops1])
        case (fail err)
        with a False Inr y ne have "s' = s1\<lparr>trace := trace s1 @ [DcTxn ops1 (Some err)]\<rparr>"
          by (auto simp: watchResponse_def)
        with t1 show ?thesis by auto
      next
        case ok
        with a False Inr y ne have "s' = s1\<lparr>trace := trace s1 @ [DcTxn ops1 None]\<rparr>"
          by (auto simp: watchResponse_def)
        with t1 show ?thesis by auto
      qed
    qed
  qed
qed

lemma wcLoop_trace:
  "wcLoop dst fl wrs s = (out, ops', s') \<Longrightarrow> \<exists>t. trace s' = trace s @ t \<and> list_all isTxn t"
proof (induction wrs arbitrary: s)
  case Nil
  then show ?case by auto
next
  case (Cons wr wrs)
  show ?case
  proof (cases "watchResponse dst fl wr s")
    case (Inl a)
    with Cons.prems have "watchResponse dst fl wr s = Inl (out, ops', s')" by simp
    then show ?thesis using watchResponse_trace by blast
  next
    case (Inr s1)
    then obtain t1 where t1: "trace s1 = trace s @ t1" "list_all isTxn t1"
      using watchResponse_trace by blast
    from Cons.prems Inr have "wcLoop dst fl wrs s1 = (out, ops', s')" by simp
    from Cons.IH [OF this] obtain t2 where "trace s' = trace s1 @ t2" "list_all isTxn t2" by blast
    with t1 show ?thesis by auto
  qed
qed

lemma puts_append: "puts (a @ b) = puts a @ puts b"
  by (induction a rule: puts.induct) auto

lemma isTxn_puts: "list_all isTxn t \<Longrightarrow> puts t = []"
  by (induction t rule: puts.induct) auto

lemma isTxn_not_SyncBase: "list_all isTxn t \<Longrightarrow> SyncBase \<notin> set t"
  by (induction t) auto

section \<open>The starting revision\<close>

lemma startRevOf_ge2:
  assumes "1 < sint (r :: int64)"
  shows "startRevOf r = r - 1" "startRevOf r \<noteq> 0" "sint (r - 1) = sint r - 1"
proof -
  have b: "sint r < 2 ^ 63" using sint_lt [of r] by simp
  have "sint (r - 1) = signed_take_bit 63 (sint r - 1)"
    by (simp add: sint_word_ariths)
  also have "\<dots> = sint r - 1"
    using assms b by (intro signed_take_bit_int_eq_self) auto
  finally show s: "sint (r - 1) = sint r - 1" .
  with assms show "startRevOf r = r - 1" by (simp add: startRevOf_def Let_def)
  moreover have "r - 1 \<noteq> 0" using s assms by auto
  ultimately show "startRevOf r \<noteq> 0" by simp
qed

text \<open>
  C2, as amended. For every starting revision \<open>r > 1\<close> (and flags that pass the check),
  the syncer is created with revision \<open>r - 1\<close>, the run goes straight to
  \<^verbatim>\<open>SyncUpdates\<close>, and no \<^verbatim>\<open>SyncBase\<close> and no Put is ever issued, whatever the source and
  the destination do.
\<close>

theorem C2_rev_ge_2_skips_snapshot:
  assumes "1 < sint (mmrev fl)" and "\<not> (mmnodestprefix fl \<and> 0 < length (mmdestprefix fl))"
  shows "take 3 (trace (snd (snd (makeMirror e fl))))
           = [GoProgress, NewSyncer (mmprefix fl) (mmrev fl - 1), SyncUpdates]
       \<and> sint (mmrev fl - 1) = sint (mmrev fl) - 1
       \<and> puts (trace (snd (snd (makeMirror e fl)))) = []
       \<and> SyncBase \<notin> set (trace (snd (snd (makeMirror e fl))))"
proof -
  let ?s = "\<lparr>total = 0, trace = [GoProgress, NewSyncer (mmprefix fl) (mmrev fl - 1), SyncUpdates]\<rparr>"
  have mm: "makeMirror e fl = wcLoop (dc e) fl (syncUpdates e) ?s"
    using assms startRevOf_ge2 [OF assms(1)] by (auto simp: makeMirror_def Let_def)
  obtain out ops s' where r: "wcLoop (dc e) fl (syncUpdates e) ?s = (out, ops, s')"
    by (cases "wcLoop (dc e) fl (syncUpdates e) ?s") auto
  from wcLoop_trace [OF r] obtain t where t: "trace s' = trace ?s @ t" "list_all isTxn t" by blast
  show ?thesis
    using t startRevOf_ge2(3) [OF assms(1)]
    by (simp add: mm r puts_append isTxn_puts isTxn_not_SyncBase)
qed

text \<open>The example of the specification: revision 42 gives a syncer at revision 41.\<close>

theorem C2_rev_42:
  "1 < sint (mmrev (flA\<lparr>mmrev := 42\<rparr>))
   \<and> take 3 (trace (snd (snd (makeMirror (envA [[kvA]] [] okStore) (flA\<lparr>mmrev := 42\<rparr>)))))
       = [GoProgress, NewSyncer ''/a/'' 41, SyncUpdates]
   \<and> puts (trace (snd (snd (makeMirror (envA [[kvA]] [] okStore) (flA\<lparr>mmrev := 42\<rparr>))))) = []"
  using C2_rev_ge_2_skips_snapshot [of "flA\<lparr>mmrev := 42\<rparr>" "envA [[kvA]] [] okStore"]
  by (simp add: flA_def)

text \<open>
  C2 as stated fails at \<open>r = 1\<close>: \<^verbatim>\<open>startRev\<close> is \<open>0\<close>, the test \<^verbatim>\<open>startRev == 0\<close> holds, and
  the snapshot phase runs and issues its Put.
\<close>

theorem C2_rev_1_runs_snapshot:
  "0 < sint (mmrev (flA\<lparr>mmrev := 1\<rparr>))
   \<and> makeMirror (envA [[kvA]] [] okStore) (flA\<lparr>mmrev := 1\<rparr>)
     = (Return None, [],
        \<lparr>total = 1, trace = [GoProgress, NewSyncer ''/a/'' 0, SyncBase, DcPut ''/a/1'' ''v'' None, SyncUpdates]\<rparr>)"
  by (simp add: run_defs)

section \<open>The flag check\<close>

text \<open>
  C3, as amended. With both \<^verbatim>\<open>--no-dest-prefix\<close> and a destination prefix,
  \<^verbatim>\<open>makeMirror\<close> leaves by \<^verbatim>\<open>ExitWithError(ExitBadArgs, ...)\<close> before anything else: the
  progress printer is not started, no syncer is created, no snapshot, Put, watch or
  transaction is issued, and the process ends with an error. The two clients were
  built before \<^verbatim>\<open>makeMirror\<close> was called.
\<close>

theorem C3_rejected_before_the_run:
  assumes "mmnodestprefix fl" and "0 < length (mmdestprefix fl)"
  shows "makeMirror e fl = (Exit ExitBadArgs (Some errConflict), [], \<lparr>total = 0, trace = []\<rparr>)
       \<and> filter runEffect (snd (makeMirrorCommandFunc e fl args)) = []
       \<and> (\<exists>code err. fst (makeMirrorCommandFunc e fl args) = Exited code (Some err))
       \<and> (length args = 1 \<and> mmuser fl = [] \<and> mustClient e = None \<and> mustClientFromCmd e = None \<longrightarrow>
            makeMirrorCommandFunc e fl args
              = (Exited ExitBadArgs (Some errConflict), [MustClient (hd args) None, MustClientFromCmd]))"
proof -
  have mm: "makeMirror e fl = (Exit ExitBadArgs (Some errConflict), [], \<lparr>total = 0, trace = []\<rparr>)"
    using assms by (simp add: makeMirror_def errConflict_def)
  show ?thesis
    by (auto simp: mm makeMirrorCommandFunc_def authDestCfg_def split: sum.splits option.splits prod.splits)
qed

text \<open>
  C3 as stated fails: \<^verbatim>\<open>mustClient\<close> and \<^verbatim>\<open>mustClientFromCmd\<close> have run when the flags are
  rejected.
\<close>

theorem C3_clients_built_first:
  "mmnodestprefix flConflict
   \<and> 0 < length (mmdestprefix flConflict)
   \<and> makeMirrorCommandFunc (envA [] [] okStore) flConflict [''127.0.0.1:2379'']
     = (Exited ExitBadArgs (Some errConflict), [MustClient ''127.0.0.1:2379'' None, MustClientFromCmd])"
  by (simp add: run_defs)

theorem C3_rejected_witness:
  "mmnodestprefix flConflict
   \<and> 0 < length (mmdestprefix flConflict)
   \<and> makeMirror (envA [] [] okStore) flConflict
       = (Exit ExitBadArgs (Some errConflict), [], \<lparr>total = 0, trace = []\<rparr>)
   \<and> filter runEffect (snd (makeMirrorCommandFunc (envA [] [] okStore) flConflict [''127.0.0.1:2379''])) = []"
  using C3_rejected_before_the_run [of flConflict "envA [] [] okStore" "[''127.0.0.1:2379'']"]
  by (simp add: flA_def flConflict_def)


section \<open>How the watch loop can end\<close>

lemma flush_Inl_out: "flush dst ops s = Inl (out, x) \<Longrightarrow> \<exists>err. out = Return (Some err)"
  by (auto simp: flush_def split: prod.splits option.splits)

lemma eventStep_Inl_out:
  "eventStep dst fl ev lastRev ops s = Inl (out, x) \<Longrightarrow>
     (\<exists>err. out = Return (Some err)) \<or> out = Panic ''unexpected event type''"
  by (erule eventStep_Inl)
    (auto simp: revFlush_def sizeFlush_def appendOp_def Let_def split: if_splits option.splits
          dest: flush_Inl_out)

lemma eventsLoop_Inl_out:
  "eventsLoop dst fl evs lastRev ops s = Inl (out, x) \<Longrightarrow>
     (\<exists>err. out = Return (Some err)) \<or> out = Panic ''unexpected event type''"
proof (induction evs arbitrary: lastRev ops s)
  case Nil
  then show ?case by simp
next
  case (Cons ev evs)
  then show ?case
    by (auto split: sum.splits dest: eventStep_Inl_out)
qed

lemma watchResponse_Inl_out:
  "watchResponse dst fl wr s = Inl (out, x) \<Longrightarrow>
     (\<exists>err. out = Return (Some err)) \<or> out = Panic ''unexpected event type''"
  by (auto simp: watchResponse_def split: if_splits sum.splits dest: eventsLoop_Inl_out flush_Inl_out)

lemma wcLoop_out:
  "wcLoop dst fl wrs s = (out, x) \<Longrightarrow>
     (\<exists>err. out = Return err) \<or> out = Panic ''unexpected event type''"
proof (induction wrs arbitrary: s)
  case Nil
  then show ?case by auto
next
  case (Cons wr wrs)
  then show ?case
    by (auto split: sum.splits dest: watchResponse_Inl_out)
qed

section \<open>Compaction\<close>

lemma wcLoop_compacted:
  assumes "CompactRevision wr \<noteq> 0"
  shows "wcLoop dst fl (pre @ wr # post) s =
     (case wcLoop dst fl pre s of
        (Return None, ops, s') \<Rightarrow> (Return (Some ErrCompacted), [], s')
      | x \<Rightarrow> x)"
proof (induction pre arbitrary: s)
  case Nil
  show ?case using assms by (simp add: watchResponse_def)
next
  case (Cons a pre)
  show ?case
  proof (cases "watchResponse dst fl a s")
    case (Inl x)
    obtain out ops s' where x: "x = (out, ops, s')" by (cases x)
    with Inl watchResponse_Inl_out have "out \<noteq> Return None" by fastforce
    with Inl x show ?thesis by (auto split: outcome.splits option.splits)
  next
    case (Inr s1)
    then show ?thesis by (simp add: Cons.IH)
  qed
qed

text \<open>
  C6. When a watch response carries a non-zero compact revision, the run does exactly
  what it does on the responses before it, and where that part would have gone on to the
  next response it returns \<^verbatim>\<open>ErrCompacted\<close> instead, with the log as it was: nothing
  of the signalling response or of a later one reaches the destination. (Where the run
  ends earlier, by a failed commit or a panic, the signalling response is never read.)
\<close>

theorem C6_compaction_ends_the_run:
  assumes "CompactRevision wr \<noteq> 0"
  shows "makeMirror (e\<lparr>syncUpdates := pre @ wr # post\<rparr>) fl =
     (case makeMirror (e\<lparr>syncUpdates := pre\<rparr>) fl of
        (Return None, ops, s) \<Rightarrow> (Return (Some ErrCompacted), [], s)
      | x \<Rightarrow> x)"
  by (simp add: makeMirror_def Let_def wcLoop_compacted [OF assms] split: prod.splits option.splits)

theorem C6_compaction_witness:
  "CompactRevision wrCompacted \<noteq> 0
   \<and> makeMirror (envA [] [wrOne, wrCompacted, wrOne] okStore) (flA\<lparr>mmrev := 5\<rparr>)
     = (Return (Some ErrCompacted), [],
        \<lparr>total = 1,
         trace = [GoProgress, NewSyncer ''/a/'' 4, SyncUpdates, DcTxn [OpPut ''1'' ''v''] None]\<rparr>)"
  using C6_compaction_ends_the_run
    [where wr = wrCompacted and e = "envA [] [] okStore" and pre = "[wrOne]" and post = "[wrOne]"
       and fl = "flA\<lparr>mmrev := 5\<rparr>"]
  by (simp add: run_defs)

section \<open>A destination that accepts every request\<close>

lemma flush_accepts:
  "accepts dst \<Longrightarrow> flush dst ops s = Inr ([], s\<lparr>trace := trace s @ [DcTxn ops None]\<rparr>)"
  by (simp add: flush_def dcTxn_def accepts_def)

lemma kvsLoop_accepts:
  "accepts dst \<Longrightarrow>
   kvsLoop dst fl kvs s =
     (None, s\<lparr>total := total s + of_nat (length kvs),
              trace := trace s @ map (\<lambda>kv. DcPut (modifyPrefix fl (Key kv)) (Value kv) None) kvs\<rparr>)"
proof (induction kvs arbitrary: s)
  case Nil
  then show ?case by simp
next
  case (Cons kv kvs)
  then show ?case by (simp add: dcPut_def accepts_def)
qed

lemma rcLoop_accepts: "accepts dst \<Longrightarrow> \<exists>s'. rcLoop dst fl rs s = (None, s')"
  by (induction rs arbitrary: s) (auto simp: kvsLoop_accepts)

section \<open>An event of an unknown type\<close>

lemma classify_None: "classify fl ev = None \<longleftrightarrow> \<not> known ev"
  by (cases "Type ev") (auto simp: classify_def known_def)

lemma eventStep_unknown:
  assumes "\<not> known ev"
  shows "\<exists>a. eventStep dst fl ev lastRev ops s = Inl a"
proof -
  from assms have "classify fl ev = None" by (simp add: classify_None)
  then show ?thesis
    by (auto simp: eventStep_def appendOp_def split: sum.splits)
qed

lemma eventsLoop_unknown:
  "\<not> known ev \<Longrightarrow> \<exists>a. eventsLoop dst fl (es1 @ ev # es2) lastRev ops s = Inl a"
proof (induction es1 arbitrary: lastRev ops s)
  case Nil
  then show ?case using eventStep_unknown [of ev dst fl lastRev ops s] by auto
next
  case (Cons a es1)
  then show ?case by (auto split: sum.splits)
qed

lemma wcLoop_unknown:
  assumes "Events wr = es1 @ ev # es2" and "\<not> known ev"
  shows "fst (wcLoop dst fl (pre @ wr # post) s) \<noteq> Return None"
proof (induction pre arbitrary: s)
  case Nil
  show ?case
  proof (cases "CompactRevision wr = 0")
    case True
    from eventsLoop_unknown [OF assms(2)] obtain a
      where a: "eventsLoop dst fl (Events wr) 0 [] s = Inl a" unfolding assms(1) by blast
    obtain out x where "a = (out, x)" by (cases a)
    with a eventsLoop_Inl_out have "out \<noteq> Return None" by fastforce
    with a True \<open>a = (out, x)\<close> show ?thesis by (simp add: watchResponse_def)
  next
    case False
    then show ?thesis by (simp add: watchResponse_def)
  qed
next
  case (Cons a pre)
  show ?case
  proof (cases "watchResponse dst fl a s")
    case (Inl x)
    obtain out y where x: "x = (out, y)" by (cases x)
    with Inl watchResponse_Inl_out have "out \<noteq> Return None" by fastforce
    with Inl x show ?thesis by simp
  next
    case (Inr s1)
    then show ?thesis by (simp add: Cons.IH)
  qed
qed

lemma makeMirror_unknown:
  assumes "syncUpdates e = pre @ wr # post" and "Events wr = es1 @ ev # es2" and "\<not> known ev"
  shows "fst (makeMirror e fl) \<noteq> Return None"
  using wcLoop_unknown [OF assms(2,3)]
  by (auto simp: makeMirror_def Let_def assms(1) split: prod.splits option.splits)

lemma eventStep_accepts_known:
  assumes "accepts dst" and "known ev"
  shows "\<exists>lr ops' s'. eventStep dst fl ev lastRev ops s = Inr (lr, ops', s')"
proof -
  from assms(2) obtain op where "classify fl ev = Some op"
    using classify_None [of fl ev] by (cases "classify fl ev") auto
  then show ?thesis
    by (simp add: eventStep_def revFlush_def sizeFlush_def appendOp_def Let_def
          flush_accepts [OF assms(1)])
qed

lemma eventStep_accepts_unknown:
  assumes "accepts dst" and "\<not> known ev"
  shows "\<exists>x. eventStep dst fl ev lastRev ops s = Inl (Panic ''unexpected event type'', x)"
proof -
  from assms(2) have "classify fl ev = None" by (simp add: classify_None)
  then show ?thesis
    by (simp add: eventStep_def revFlush_def sizeFlush_def appendOp_def Let_def
          flush_accepts [OF assms(1)])
qed

lemma eventsLoop_accepts_known:
  "accepts dst \<Longrightarrow> list_all known es \<Longrightarrow> \<exists>ops' s'. eventsLoop dst fl es lastRev ops s = Inr (ops', s')"
proof (induction es arbitrary: lastRev ops s)
  case Nil
  then show ?case by simp
next
  case (Cons ev es)
  from Cons.prems obtain lr ops1 s1 where "eventStep dst fl ev lastRev ops s = Inr (lr, ops1, s1)"
    using eventStep_accepts_known [of dst ev fl lastRev ops s] by auto
  with Cons show ?case by simp
qed

lemma eventsLoop_accepts_panic:
  "accepts dst \<Longrightarrow> list_all known es1 \<Longrightarrow> \<not> known ev \<Longrightarrow>
     \<exists>x. eventsLoop dst fl (es1 @ ev # es2) lastRev ops s = Inl (Panic ''unexpected event type'', x)"
proof (induction es1 arbitrary: lastRev ops s)
  case Nil
  then show ?case using eventStep_accepts_unknown [of dst ev fl lastRev ops s] by auto
next
  case (Cons a es1)
  from Cons.prems obtain lr ops1 s1 where "eventStep dst fl a lastRev ops s = Inr (lr, ops1, s1)"
    using eventStep_accepts_known [of dst a fl lastRev ops s] by auto
  with Cons show ?case by simp
qed

lemma watchResponse_accepts_clean:
  "accepts dst \<Longrightarrow> clean wr \<Longrightarrow> \<exists>s'. watchResponse dst fl wr s = Inr s'"
  using eventsLoop_accepts_known [of dst "Events wr" fl 0 "[]" s]
  by (auto simp: watchResponse_def clean_def flush_accepts)

lemma wcLoop_accepts_clean:
  "accepts dst \<Longrightarrow> list_all clean pre \<Longrightarrow> \<exists>s'. wcLoop dst fl (pre @ rest) s = wcLoop dst fl rest s'"
proof (induction pre arbitrary: s)
  case Nil
  then show ?case by auto
next
  case (Cons a pre)
  from Cons.prems obtain s1 where "watchResponse dst fl a s = Inr s1"
    using watchResponse_accepts_clean [of dst a fl s] by auto
  with Cons show ?case by simp
qed

lemma wcLoop_accepts_panic:
  assumes "accepts dst" "list_all clean pre" "CompactRevision wr = 0"
    "Events wr = es1 @ ev # es2" "list_all known es1" "\<not> known ev"
  shows "fst (wcLoop dst fl (pre @ wr # post) s) = Panic ''unexpected event type''"
proof -
  from wcLoop_accepts_clean [OF assms(1,2)] obtain s1
    where s1: "wcLoop dst fl (pre @ wr # post) s = wcLoop dst fl (wr # post) s1" by blast
  from eventsLoop_accepts_panic [OF assms(1,5,6)] obtain x
    where "eventsLoop dst fl (Events wr) 0 [] s1 = Inl (Panic ''unexpected event type'', x)"
    unfolding assms(4) by blast
  with assms(3) show ?thesis by (simp add: s1 watchResponse_def)
qed

lemma makeMirror_accepts_panic:
  assumes "accepts (dc e)" "snd (syncBase e) = None"
    "\<not> (mmnodestprefix fl \<and> 0 < length (mmdestprefix fl))"
    "syncUpdates e = pre @ wr # post" "list_all clean pre" "CompactRevision wr = 0"
    "Events wr = es1 @ ev # es2" "list_all known es1" "\<not> known ev"
  shows "fst (makeMirror e fl) = Panic ''unexpected event type''"
proof -
  note p = wcLoop_accepts_panic [OF assms(1) assms(5-9)]
  show ?thesis
  proof (cases "startRevOf (mmrev fl) = 0")
    case True
    obtain s' where "rcLoop (dc e) (defaultDestPrefix fl) (fst (syncBase e))
        \<lparr>total = 0, trace = [GoProgress, NewSyncer (mmprefix fl) 0, SyncBase]\<rparr> = (None, s')"
      using rcLoop_accepts [OF assms(1)] by blast
    with True assms(2,3) show ?thesis
      by (auto simp: makeMirror_def Let_def assms(4) p)
  next
    case False
    with assms(3) show ?thesis
      by (auto simp: makeMirror_def Let_def assms(4) p)
  qed
qed

lemma makeMirror_Exit:
  "fst (makeMirror e fl) = Exit c err \<Longrightarrow> c = ExitBadArgs \<and> err = Some errConflict"
proof -
  have w: "\<And>s fl'. fst (wcLoop (dc e) fl' (syncUpdates e) s) \<noteq> Exit c err"
  proof -
    fix s fl'
    obtain out x where "wcLoop (dc e) fl' (syncUpdates e) s = (out, x)"
      by (cases "wcLoop (dc e) fl' (syncUpdates e) s")
    with wcLoop_out [OF this] show "fst (wcLoop (dc e) fl' (syncUpdates e) s) \<noteq> Exit c err" by auto
  qed
  assume "fst (makeMirror e fl) = Exit c err"
  then show ?thesis using w
    by (auto simp: makeMirror_def Let_def split: if_splits prod.splits option.splits)
qed

lemma commandFunc_propagates:
  assumes "length args = 1" "authDestCfg e fl = Inr (a, t)" "mustClient e = None" "mustClientFromCmd e = None"
  shows "fst (makeMirrorCommandFunc e fl args) =
     (case fst (makeMirror e fl) of
        Return err \<Rightarrow> Exited ExitError err
      | Panic msg \<Rightarrow> Panicked msg
      | Exit code err \<Rightarrow> Exited code err)"
  using assms by (auto simp: makeMirrorCommandFunc_def Let_def split: prod.splits outcome.splits)

lemma commandFunc_not_nil:
  assumes "fst (makeMirror e fl) \<noteq> Return None"
  shows "fst (makeMirrorCommandFunc e fl args) \<noteq> Exited ExitError None"
proof -
  have "\<And>c. fst (makeMirror e fl) \<noteq> Exit c None"
    using makeMirror_Exit [of e fl] by auto
  with assms show ?thesis
    by (auto simp: makeMirrorCommandFunc_def Let_def split: prod.splits outcome.splits sum.splits option.splits)
qed

text \<open>
  C7. When the watch stream holds an event that is neither PUT nor DELETE, the run never
  ends with \<^verbatim>\<open>return nil\<close>, and the process never ends on a \<^verbatim>\<open>nil\<close> error. Where
  the run reaches that event (the destination accepts every request, the snapshot phase
  reports no error, nothing before the event is compacted or of an unknown type),
  \<^verbatim>\<open>makeMirror\<close> panics with "unexpected event type", and the panic leaves
  \<^verbatim>\<open>makeMirrorCommandFunc\<close> as the same panic, which ends the process.
\<close>

theorem C7_unknown_kind_aborts:
  assumes "syncUpdates e = pre @ wr # post" and "Events wr = es1 @ ev # es2" and "\<not> known ev"
  shows "fst (makeMirror e fl) \<noteq> Return None
       \<and> fst (makeMirrorCommandFunc e fl args) \<noteq> Exited ExitError None
       \<and> (accepts (dc e) \<and> snd (syncBase e) = None
            \<and> \<not> (mmnodestprefix fl \<and> 0 < length (mmdestprefix fl))
            \<and> list_all clean pre \<and> CompactRevision wr = 0 \<and> list_all known es1
          \<longrightarrow> fst (makeMirror e fl) = Panic ''unexpected event type''
              \<and> (length args = 1 \<and> (\<exists>a t. authDestCfg e fl = Inr (a, t))
                    \<and> mustClient e = None \<and> mustClientFromCmd e = None
                  \<longrightarrow> fst (makeMirrorCommandFunc e fl args) = Panicked ''unexpected event type''))"
proof (intro conjI impI)
  show n: "fst (makeMirror e fl) \<noteq> Return None"
    by (rule makeMirror_unknown [OF assms])
  show "fst (makeMirrorCommandFunc e fl args) \<noteq> Exited ExitError None"
    by (rule commandFunc_not_nil [OF n])
next
  assume h: "accepts (dc e) \<and> snd (syncBase e) = None
            \<and> \<not> (mmnodestprefix fl \<and> 0 < length (mmdestprefix fl))
            \<and> list_all clean pre \<and> CompactRevision wr = 0 \<and> list_all known es1"
  then show p: "fst (makeMirror e fl) = Panic ''unexpected event type''"
    using makeMirror_accepts_panic [of e fl pre wr post es1 ev es2] assms by blast
  assume "length args = 1 \<and> (\<exists>a t. authDestCfg e fl = Inr (a, t))
                    \<and> mustClient e = None \<and> mustClientFromCmd e = None"
  then show "fst (makeMirrorCommandFunc e fl args) = Panicked ''unexpected event type''"
    using commandFunc_propagates [of args e fl] p by auto
qed

theorem C7_unknown_kind_witness:
  "\<not> known evBad
   \<and> fst (makeMirror (envA [] [wrOne, wrBad] okStore) flA) = Panic ''unexpected event type''
   \<and> fst (makeMirrorCommandFunc (envA [] [wrOne, wrBad] okStore) flA [''127.0.0.1:2379''])
       = Panicked ''unexpected event type''"
  using C7_unknown_kind_aborts
    [where e = "envA [] [wrOne, wrBad] okStore" and pre = "[wrOne]" and wr = wrBad and post = "[]"
       and ?es1.0 = "[putEv ''/a/2'' ''w'' 6]" and ev = evBad and ?es2.0 = "[putEv ''/a/4'' ''y'' 6]"
       and fl = flA and args = "[''127.0.0.1:2379'']"]
  by (simp add: run_defs accepts_def clean_def known_def)

section \<open>The progress counter\<close>

lemma putsOk_append: "putsOk (a @ b) = putsOk a @ putsOk b"
  by (induction a rule: putsOk.induct) auto

lemma committed_append: "committed (a @ b) = committed a @ committed b"
  by (induction a rule: committed.induct) auto

lemma enqueued_append: "enqueued (a @ b) = enqueued a + enqueued b"
  by (simp add: enqueued_def putsOk_append committed_append)

lemma enqueued_simps:
  "enqueued [] = 0"
  "enqueued [DcTxn ops None] = length ops"
  "enqueued [DcTxn ops (Some err)] = 0"
  "enqueued [DcPut k v None] = 1"
  "enqueued [DcPut k v (Some err)] = 0"
  by (simp_all add: enqueued_def)

lemma dcPut_eq:
  "dcPut dst k v s = (dst (trace s) (Put k v), s\<lparr>trace := trace s @ [DcPut k v (dst (trace s) (Put k v))]\<rparr>)"
  by (simp add: dcPut_def Let_def)

lemma kvsLoop_counter:
  "counterOk [] s \<Longrightarrow> kvsLoop dst fl kvs s = (r, s') \<Longrightarrow> counterOk [] s'"
proof (induction kvs arbitrary: s)
  case Nil
  then show ?case by simp
next
  case (Cons kv kvs)
  show ?case
  proof (cases "dst (trace s) (Put (modifyPrefix fl (Key kv)) (Value kv))")
    case None
    let ?s1 = "s\<lparr>trace := trace s @ [DcPut (modifyPrefix fl (Key kv)) (Value kv) None], total := total s + 1\<rparr>"
    from Cons.prems(1) have "counterOk [] ?s1"
      by (simp add: counterOk_def enqueued_append enqueued_simps)
    moreover from Cons.prems(2) None have "kvsLoop dst fl kvs ?s1 = (r, s')"
      by (simp add: dcPut_eq)
    ultimately show ?thesis by (rule Cons.IH)
  next
    case (Some err)
    with Cons.prems(2)
    have "s' = s\<lparr>trace := trace s @ [DcPut (modifyPrefix fl (Key kv)) (Value kv) (Some err)]\<rparr>"
      by (auto simp: dcPut_eq)
    with Cons.prems(1) show ?thesis
      by (simp add: counterOk_def enqueued_append enqueued_simps)
  qed
qed

lemma rcLoop_counter:
  "counterOk [] s \<Longrightarrow> rcLoop dst fl rs s = (r, s') \<Longrightarrow> counterOk [] s'"
proof (induction rs arbitrary: s)
  case Nil
  then show ?case by simp
next
  case (Cons a rs)
  obtain r1 s1 where k: "kvsLoop dst fl a s = (r1, s1)" by (cases "kvsLoop dst fl a s")
  from kvsLoop_counter [OF Cons.prems(1) k] have c1: "counterOk [] s1" .
  show ?case
  proof (cases r1)
    case None
    with Cons.prems(2) k have "rcLoop dst fl rs s1 = (r, s')" by simp
    from Cons.IH [OF c1 this] show ?thesis .
  next
    case (Some err)
    with Cons.prems(2) k c1 show ?thesis by auto
  qed
qed

lemma flush_counter:
  "counterOk ops s \<Longrightarrow> flush dst ops s = Inl (out, ops', s') \<Longrightarrow> counterOk ops' s'"
  "counterOk ops s \<Longrightarrow> flush dst ops s = Inr (ops', s') \<Longrightarrow> counterOk ops' s'"
  by (auto simp: flush_eq counterOk_def enqueued_append enqueued_simps split: option.splits)

lemma revFlush_counter:
  "counterOk ops s \<Longrightarrow> revFlush dst ev lastRev ops s = Inl (out, ops', s') \<Longrightarrow> counterOk ops' s'"
  "counterOk ops s \<Longrightarrow> revFlush dst ev lastRev ops s = Inr (ops', s') \<Longrightarrow> counterOk ops' s'"
  by (auto simp: revFlush_def Let_def split: if_splits dest: flush_counter)

lemma sizeFlush_counter:
  "counterOk ops s \<Longrightarrow> sizeFlush dst fl ops s = Inl (out, ops', s') \<Longrightarrow> counterOk ops' s'"
  "counterOk ops s \<Longrightarrow> sizeFlush dst fl ops s = Inr (ops', s') \<Longrightarrow> counterOk ops' s'"
  by (auto simp: sizeFlush_def split: if_splits dest: flush_counter)

lemma appendOp_counter:
  "counterOk ops s \<Longrightarrow> appendOp fl ev ops s = Inl (out, ops', s') \<Longrightarrow> counterOk ops' s'"
  "counterOk ops s \<Longrightarrow> appendOp fl ev ops s = Inr (lr, ops', s') \<Longrightarrow> counterOk ops' s'"
  by (auto simp: appendOp_def counterOk_def split: option.splits)

lemma eventStep_counter:
  assumes "counterOk ops s"
  shows "eventStep dst fl ev lastRev ops s = Inl (out, ops', s') \<Longrightarrow> counterOk ops' s'"
    and "eventStep dst fl ev lastRev ops s = Inr (lr, ops', s') \<Longrightarrow> counterOk ops' s'"
proof -
  assume "eventStep dst fl ev lastRev ops s = Inl (out, ops', s')"
  then show "counterOk ops' s'"
    by (cases rule: eventStep_Inl)
       (blast dest: revFlush_counter [OF assms] sizeFlush_counter appendOp_counter)+
next
  assume "eventStep dst fl ev lastRev ops s = Inr (lr, ops', s')"
  then show "counterOk ops' s'"
    by (cases rule: eventStep_Inr)
       (blast dest: revFlush_counter [OF assms] sizeFlush_counter appendOp_counter)
qed

lemma eventsLoop_counter:
  "counterOk ops s \<Longrightarrow>
   eventsLoop dst fl evs lastRev ops s = Inl (out, ops', s') \<or> eventsLoop dst fl evs lastRev ops s = Inr (ops', s')
   \<Longrightarrow> counterOk ops' s'"
proof (induction evs arbitrary: lastRev ops s)
  case Nil
  then show ?case by auto
next
  case (Cons ev evs)
  show ?case
  proof (cases "eventStep dst fl ev lastRev ops s")
    case (Inl a)
    with Cons.prems(2) have "eventStep dst fl ev lastRev ops s = Inl (out, ops', s')" by simp
    from eventStep_counter(1) [OF Cons.prems(1) this] show ?thesis .
  next
    case (Inr b)
    obtain lr ops1 s1 where b: "b = (lr, ops1, s1)" by (cases b)
    from eventStep_counter(2) [OF Cons.prems(1)] Inr b have c1: "counterOk ops1 s1" by blast
    from Cons.prems(2) Inr b
    have "eventsLoop dst fl evs lr ops1 s1 = Inl (out, ops', s') \<or> eventsLoop dst fl evs lr ops1 s1 = Inr (ops', s')"
      by simp
    from Cons.IH [OF c1 this] show ?thesis .
  qed
qed

lemma watchResponse_counter:
  assumes "counterOk [] s"
  shows "watchResponse dst fl wr s = Inl (out, ops', s') \<Longrightarrow> counterOk ops' s'"
    and "watchResponse dst fl wr s = Inr s' \<Longrightarrow> counterOk [] s'"
proof -
  assume a: "watchResponse dst fl wr s = Inl (out, ops', s')"
  show "counterOk ops' s'"
  proof (cases "CompactRevision wr = 0")
    case False
    with a assms show ?thesis by (auto simp: watchResponse_def)
  next
    case True
    show ?thesis
    proof (cases "eventsLoop dst fl (Events wr) 0 [] s")
      case (Inl x)
      with a True have "eventsLoop dst fl (Events wr) 0 [] s = Inl (out, ops', s')"
        by (simp add: watchResponse_def)
      with eventsLoop_counter [OF assms] show ?thesis by blast
    next
      case (Inr y)
      obtain ops1 s1 where y: "y = (ops1, s1)" by (cases y)
      from eventsLoop_counter [OF assms] Inr y have "counterOk ops1 s1" by blast
      with a True Inr y show ?thesis
        by (auto simp: watchResponse_def split: if_splits sum.splits dest: flush_counter)
    qed
  qed
next
  assume a: "watchResponse dst fl wr s = Inr s'"
  then have c0: "CompactRevision wr = 0" by (auto simp: watchResponse_def split: if_splits)
  from a c0 obtain ops1 s1 where y: "eventsLoop dst fl (Events wr) 0 [] s = Inr (ops1, s1)"
    by (auto simp: watchResponse_def split: sum.splits)
  from eventsLoop_counter [OF assms] y have c1: "counterOk ops1 s1" by blast
  show "counterOk [] s'"
  proof (cases "ops1 = []")
    case True
    with a c0 y c1 show ?thesis by (simp add: watchResponse_def)
  next
    case False
    with a c0 y obtain o2 where "flush dst ops1 s1 = Inr (o2, s')"
      by (auto simp: watchResponse_def split: sum.splits)
    moreover from this have "o2 = []" by (auto simp: flush_eq split: option.splits)
    ultimately show ?thesis using flush_counter(2) [OF c1] by blast
  qed
qed

lemma wcLoop_counter:
  "counterOk [] s \<Longrightarrow> wcLoop dst fl wrs s = (out, ops', s') \<Longrightarrow> counterOk ops' s'"
proof (induction wrs arbitrary: s)
  case Nil
  then show ?case by auto
next
  case (Cons wr wrs)
  show ?case
  proof (cases "watchResponse dst fl wr s")
    case (Inl a)
    with Cons.prems(2) have "watchResponse dst fl wr s = Inl (out, ops', s')" by simp
    from watchResponse_counter(1) [OF Cons.prems(1) this] show ?thesis .
  next
    case (Inr s1)
    from watchResponse_counter(2) [OF Cons.prems(1) Inr] have c1: "counterOk [] s1" .
    from Cons.prems(2) Inr have "wcLoop dst fl wrs s1 = (out, ops', s')" by simp
    from Cons.IH [OF c1 this] show ?thesis .
  qed
qed

lemma makeMirror_counter:
  assumes "makeMirror e fl = (out, ops, s)"
  shows "counterOk ops s"
proof (cases "mmnodestprefix fl \<and> length (mmdestprefix fl) > 0")
  case True
  with assms show ?thesis by (auto simp: makeMirror_def counterOk_def enqueued_def)
next
  case False
  let ?sr = "startRevOf (mmrev fl)"
  show ?thesis
  proof (cases "?sr = 0")
    case nz: False
    let ?s = "\<lparr>total = 0, trace = [GoProgress, NewSyncer (mmprefix fl) ?sr, SyncUpdates]\<rparr>"
    have "counterOk [] ?s" by (simp add: counterOk_def enqueued_def)
    moreover from assms False nz have "wcLoop (dc e) fl (syncUpdates e) ?s = (out, ops, s)"
      by (auto simp: makeMirror_def Let_def)
    ultimately show ?thesis by (rule wcLoop_counter)
  next
    case z: True
    let ?s2 = "\<lparr>total = 0, trace = [GoProgress, NewSyncer (mmprefix fl) 0, SyncBase]\<rparr>"
    have c2: "counterOk [] ?s2" by (simp add: counterOk_def enqueued_def)
    obtain r s3 where rc: "rcLoop (dc e) (defaultDestPrefix fl) (fst (syncBase e)) ?s2 = (r, s3)"
      by (cases "rcLoop (dc e) (defaultDestPrefix fl) (fst (syncBase e)) ?s2")
    from rcLoop_counter [OF c2 rc] have c3: "counterOk [] s3" .
    then have c4: "counterOk [] (s3\<lparr>trace := trace s3 @ [SyncUpdates]\<rparr>)"
      by (simp add: counterOk_def enqueued_append) (simp add: enqueued_def)
    show ?thesis
    proof (cases "r = None \<and> snd (syncBase e) = None")
      case True
      with assms False z rc
      have "wcLoop (dc e) (defaultDestPrefix fl) (syncUpdates e) (s3\<lparr>trace := trace s3 @ [SyncUpdates]\<rparr>) = (out, ops, s)"
        by (auto simp: makeMirror_def Let_def)
      from wcLoop_counter [OF c4 this] show ?thesis .
    next
      case f: False
      with assms False z rc have "ops = [] \<and> s = s3"
        by (auto simp: makeMirror_def Let_def split: option.splits)
      with c3 show ?thesis by simp
    qed
  qed
qed

lemma sint_of_nat_small:
  assumes "n < 2 ^ 63"
  shows "sint (of_nat n :: int64) = int n"
proof -
  have "sint (of_nat n :: int64) = signed_take_bit 63 (int n)"
    using sint_sbintrunc' [where 'a = 64, of "int n"] by simp
  also have "\<dots> = int n"
    using assms by (intro signed_take_bit_int_eq_self) auto
  finally show ?thesis .
qed

text \<open>
  C8. However \<^verbatim>\<open>makeMirror\<close> is left (return, panic or exit), the counter is the number
  of snapshot pairs the destination accepted, plus the operations of the transactions it
  accepted, plus the operations still in \<^verbatim>\<open>ops\<close>: every classified event is
  counted, committed or not. Below \<open>2 ^ 63\<close> the \<^verbatim>\<open>int64\<close> counter is that number
  itself. A chunk of \<open>N\<close> pairs gives \<open>N\<close> Puts and \<open>N\<close> increments when the
  destination accepts them, and classifying an event increments the counter without
  touching the destination.
\<close>

theorem C8_counter:
  assumes "makeMirror e fl = (out, ops, s)"
  shows "total s = of_nat (length (putsOk (trace s)) + length (concat (committed (trace s))) + length ops)
       \<and> (length (putsOk (trace s)) + length (concat (committed (trace s))) + length ops < 2 ^ 63
            \<longrightarrow> sint (total s)
                = int (length (putsOk (trace s)) + length (concat (committed (trace s))) + length ops))
       \<and> (accepts dst \<longrightarrow>
            kvsLoop dst fl' kvs s0
              = (None, s0\<lparr>total := total s0 + of_nat (length kvs),
                           trace := trace s0
                             @ map (\<lambda>kv. DcPut (modifyPrefix fl' (Key kv)) (Value kv) None) kvs\<rparr>))
       \<and> (known ev \<longrightarrow>
            (\<exists>op. appendOp fl' ev ops0 s0
                     = Inr (ModRevision (Kv ev), ops0 @ [op], s0\<lparr>total := total s0 + 1\<rparr>)))"
proof (intro conjI impI)
  from makeMirror_counter [OF assms]
  show t: "total s = of_nat (length (putsOk (trace s)) + length (concat (committed (trace s))) + length ops)"
    by (simp add: counterOk_def enqueued_def)
  assume "length (putsOk (trace s)) + length (concat (committed (trace s))) + length ops < 2 ^ 63"
  then show "sint (total s)
      = int (length (putsOk (trace s)) + length (concat (committed (trace s))) + length ops)"
    unfolding t by (rule sint_of_nat_small)
next
  assume "accepts dst"
  then show "kvsLoop dst fl' kvs s0
      = (None, s0\<lparr>total := total s0 + of_nat (length kvs),
                   trace := trace s0
                     @ map (\<lambda>kv. DcPut (modifyPrefix fl' (Key kv)) (Value kv) None) kvs\<rparr>)"
    by (rule kvsLoop_accepts)
next
  assume "known ev"
  then obtain op where "classify fl' ev = Some op"
    using classify_None [of fl' ev] by (cases "classify fl' ev") auto
  then show "\<exists>op. appendOp fl' ev ops0 s0
      = Inr (ModRevision (Kv ev), ops0 @ [op], s0\<lparr>total := total s0 + 1\<rparr>)"
    by (simp add: appendOp_def)
qed

text \<open>
  A run where the counter is ahead of the destination: the snapshot pair is accepted,
  the event is classified and counted, and its commit fails.
\<close>

theorem C8_counter_witness:
  "makeMirror (envA [[kvA]] [wrOne] rejectTxn) flA
     = (Return (Some (Err ''unavailable'')), [OpPut ''/a/1'' ''v''], stAhead)
   \<and> total stAhead = 2
   \<and> putsOk (trace stAhead) = [(''/a/1'', ''v'')]
   \<and> committed (trace stAhead) = []
   \<and> total stAhead
       = of_nat (length (putsOk (trace stAhead)) + length (concat (committed (trace stAhead)))
                 + length [OpPut ''/a/1'' ''v''])"
proof -
  have run: "makeMirror (envA [[kvA]] [wrOne] rejectTxn) flA
     = (Return (Some (Err ''unavailable'')), [OpPut ''/a/1'' ''v''], stAhead)"
    by (simp add: run_defs stAhead_def)
  note C8_counter [OF run, THEN conjunct1]
  with run show ?thesis by (simp add: stAhead_def)
qed

section \<open>The loops under an accepting destination\<close>

lemma committed_txnOk: "committed (map txnOk T) = T"
  by (induction T) (auto simp: txnOk_def)

lemma eventStep_accepts:
  assumes "accepts dst" and "known ev"
  shows "eventStep dst fl ev lastRev ops s =
     Inr (revOf ev, stepOps fl ev lastRev ops,
          s\<lparr>total := total s + 1, trace := trace s @ map txnOk (stepTxns fl ev lastRev ops)\<rparr>)"
proof -
  from assms(2) obtain op where c: "classify fl ev = Some op"
    using classify_None [of fl ev] by (cases "classify fl ev") auto
  then have o: "opOf fl ev = op" by (simp add: opOf_def)
  show ?thesis
    by (simp add: eventStep_def revFlush_def sizeFlush_def appendOp_def Let_def c o
        flush_accepts [OF assms(1)] stepOps_def stepTxns_def revOf_def txnOk_def)
qed

lemma eventsLoop_accepts:
  "accepts dst \<Longrightarrow> list_all known evs \<Longrightarrow>
   eventsLoop dst fl evs lastRev ops s =
     Inr (loopOps fl evs lastRev ops,
          s\<lparr>total := total s + of_nat (length evs),
            trace := trace s @ map txnOk (loopTxns fl evs lastRev ops)\<rparr>)"
proof (induction evs arbitrary: lastRev ops s)
  case Nil
  then show ?case by simp
next
  case (Cons ev evs)
  then show ?case by (simp add: eventStep_accepts)
qed

lemma watchResponse_accepts:
  assumes "accepts dst" and "clean wr"
  shows "watchResponse dst fl wr s =
     Inr (s\<lparr>total := total s + of_nat (length (Events wr)),
            trace := trace s @ map txnOk (responseTxns fl (Events wr))\<rparr>)"
  using assms
  by (simp add: watchResponse_def clean_def eventsLoop_accepts flush_accepts responseTxns_def txnOk_def)

lemma wcLoop_accepts:
  "accepts dst \<Longrightarrow> list_all clean wrs \<Longrightarrow>
   wcLoop dst fl wrs s =
     (Return None, [],
      s\<lparr>total := total s + of_nat (length (concat (map Events wrs))),
        trace := trace s @ map txnOk (concat (map (\<lambda>wr. responseTxns fl (Events wr)) wrs))\<rparr>)"
proof (induction wrs arbitrary: s)
  case Nil
  then show ?case by simp
next
  case (Cons wr wrs)
  then show ?case by (simp add: watchResponse_accepts)
qed

lemma rcLoop_accepts_eq:
  "accepts dst \<Longrightarrow>
   rcLoop dst fl rs s =
     (None, s\<lparr>total := total s + of_nat (length (concat rs)),
              trace := trace s @ map (\<lambda>kv. DcPut (modifyPrefix fl (Key kv)) (Value kv) None) (concat rs)\<rparr>)"
proof (induction rs arbitrary: s)
  case Nil
  then show ?case by simp
next
  case (Cons r rs)
  then show ?case by (simp add: kvsLoop_accepts)
qed

lemma committed_puts: "committed (map (\<lambda>kv. DcPut (f kv) (g kv) None) kvs) = []"
  by (induction kvs) auto

lemma makeMirror_accepts:
  assumes "accepts (dc e)" and "snd (syncBase e) = None"
    and "\<not> (mmnodestprefix fl \<and> 0 < length (mmdestprefix fl))"
    and "list_all clean (syncUpdates e)"
  shows "fst (makeMirror e fl) = Return None"
    and "committed (trace (snd (snd (makeMirror e fl))))
       = concat (map (\<lambda>wr. responseTxns (runFlags fl) (Events wr)) (syncUpdates e))"
  using assms
  by (auto simp: makeMirror_def Let_def runFlags_def rcLoop_accepts_eq wcLoop_accepts
      committed_append committed_puts committed_txnOk)

section \<open>Order, response boundaries and groups of one revision\<close>

lemma stepOps_step:
  "concat (stepTxns fl ev lastRev ops) @ stepOps fl ev lastRev ops = ops @ [opOf fl ev]"
  by (simp add: stepTxns_def stepOps_def)

lemma loop_order:
  "concat (loopTxns fl evs lastRev ops) @ loopOps fl evs lastRev ops = ops @ map (opOf fl) evs"
proof (induction evs arbitrary: lastRev ops)
  case Nil
  then show ?case by simp
next
  case (Cons ev evs)
  have "concat (loopTxns fl (ev # evs) lastRev ops) @ loopOps fl (ev # evs) lastRev ops
      = concat (stepTxns fl ev lastRev ops)
        @ (concat (loopTxns fl evs (revOf ev) (stepOps fl ev lastRev ops))
           @ loopOps fl evs (revOf ev) (stepOps fl ev lastRev ops))"
    by simp
  also have "\<dots> = concat (stepTxns fl ev lastRev ops) @ stepOps fl ev lastRev ops @ map (opOf fl) evs"
    by (simp only: Cons.IH)
  also have "\<dots> = ops @ map (opOf fl) (ev # evs)"
    using stepOps_step [of fl ev lastRev ops] by simp
  finally show ?case .
qed

lemma stepOps_nonempty: "stepOps fl ev lastRev ops \<noteq> []"
  by (simp add: stepOps_def)

lemma loopOps_nonempty: "ops \<noteq> [] \<or> evs \<noteq> [] \<Longrightarrow> loopOps fl evs lastRev ops \<noteq> []"
  by (induction evs arbitrary: lastRev ops) (auto simp: stepOps_nonempty)

lemma responseTxns_order: "concat (responseTxns fl evs) = map (opOf fl) evs"
  using loop_order [of fl evs 0 "[]"] by (auto simp: responseTxns_def)

lemma responseTxns_nonempty: "evs \<noteq> [] \<Longrightarrow> responseTxns fl evs \<noteq> []"
  using loopOps_nonempty [of "[]" evs fl 0] by (simp add: responseTxns_def)

lemma known_ops: "list_all known evs \<Longrightarrow> map Some (map (opOf fl) evs) = map (classify fl) evs"
proof (induction evs)
  case Nil
  then show ?case by simp
next
  case (Cons ev evs)
  from Cons.prems obtain op where "classify fl ev = Some op"
    using classify_None [of fl ev] by (cases "classify fl ev") auto
  with Cons show ?case by (simp add: opOf_def)
qed

lemma lastRevAfter_Cons: "lastRevAfter (x # xs) lastRev = lastRevAfter xs (revOf x)"
  by (simp add: lastRevAfter_def)

lemma loopOps_append:
  "loopOps fl (xs @ ys) lastRev ops
     = loopOps fl ys (lastRevAfter xs lastRev) (loopOps fl xs lastRev ops)"
proof (induction xs arbitrary: lastRev ops)
  case Nil
  show ?case by (simp add: lastRevAfter_def)
next
  case (Cons x xs)
  show ?case by (simp add: Cons.IH lastRevAfter_Cons)
qed

lemma loopTxns_append:
  "loopTxns fl (xs @ ys) lastRev ops
     = loopTxns fl xs lastRev ops @ loopTxns fl ys (lastRevAfter xs lastRev) (loopOps fl xs lastRev ops)"
proof (induction xs arbitrary: lastRev ops)
  case Nil
  show ?case by (simp add: lastRevAfter_def)
next
  case (Cons x xs)
  show ?case by (simp add: Cons.IH lastRevAfter_Cons)
qed

lemma loop_boundary:
  assumes "lastRev \<noteq> 0" and "lastRev < revOf y" and "P \<noteq> []"
  shows "loopTxns fl (y # ys) lastRev P = [P] @ loopTxns fl (y # ys) 0 []"
    and "loopOps fl (y # ys) lastRev P = loopOps fl (y # ys) 0 []"
  using assms by (simp_all add: stepTxns_def stepOps_def)

lemma responseTxns_split:
  assumes "xs = [] \<or> ys = [] \<or> (revOf (last xs) \<noteq> 0 \<and> revOf (last xs) < revOf (hd ys))"
  shows "responseTxns fl (xs @ ys) = responseTxns fl xs @ responseTxns fl ys"
proof (cases "xs = [] \<or> ys = []")
  case True
  then show ?thesis by (auto simp: responseTxns_def)
next
  case False
  then obtain y ys' where ys: "ys = y # ys'" by (cases ys) auto
  from False have xs: "xs \<noteq> []" by simp
  let ?P = "loopOps fl xs 0 []"
  have P: "?P \<noteq> []" using xs loopOps_nonempty by blast
  from assms False ys xs have b: "lastRevAfter xs 0 \<noteq> 0" "lastRevAfter xs 0 < revOf y"
    by (simp_all add: lastRevAfter_def)
  note lb = loop_boundary [OF b P, of fl ys']
  show ?thesis
    by (simp add: responseTxns_def loopTxns_append loopOps_append ys lb P
        del: loopTxns.simps loopOps.simps)
qed

lemma group_no_size_flush:
  assumes "\<forall>ev\<in>set evs. revOf ev = r" and "lastRev = 0 \<or> lastRev = r"
    and "\<forall>k. length ops \<le> k \<and> k < length ops + length evs \<longrightarrow> int k \<noteq> sint (mmmaxTxnOps fl)"
  shows "loopTxns fl evs lastRev ops = [] \<and> loopOps fl evs lastRev ops = ops @ map (opOf fl) evs"
  using assms
proof (induction evs arbitrary: lastRev ops)
  case Nil
  then show ?case by simp
next
  case (Cons ev evs)
  from Cons.prems(1) have r: "revOf ev = r" by simp
  from Cons.prems(3) have n: "int (length ops) \<noteq> sint (mmmaxTxnOps fl)" by auto
  from Cons.prems(2) r have nb: "\<not> (lastRev \<noteq> 0 \<and> revOf ev > lastRev)" by auto
  have st: "stepTxns fl ev lastRev ops = []" "stepOps fl ev lastRev ops = ops @ [opOf fl ev]"
    using n nb by (auto simp: stepTxns_def stepOps_def)
  have "loopTxns fl evs (revOf ev) (ops @ [opOf fl ev]) = []
      \<and> loopOps fl evs (revOf ev) (ops @ [opOf fl ev]) = (ops @ [opOf fl ev]) @ map (opOf fl) evs"
  proof (rule Cons.IH)
    show "\<forall>ev\<in>set evs. revOf ev = r" using Cons.prems(1) by simp
    show "revOf ev = 0 \<or> revOf ev = r" using r by simp
    show "\<forall>k. length (ops @ [opOf fl ev]) \<le> k \<and> k < length (ops @ [opOf fl ev]) + length evs
        \<longrightarrow> int k \<noteq> sint (mmmaxTxnOps fl)"
      using Cons.prems(3) by auto
  qed
  then show ?case by (simp add: st)
qed

lemma group_count:
  assumes "\<forall>ev\<in>set evs. revOf ev = r" and "lastRev = 0 \<or> lastRev = r"
    and "sint (mmmaxTxnOps fl) = int m" and "1 \<le> m" and "length ops \<le> m"
    and "ops \<noteq> [] \<or> evs \<noteq> []"
  shows "Suc (length (loopTxns fl evs lastRev ops)) = (length ops + length evs + m - 1) div m"
  using assms
proof (induction evs arbitrary: lastRev ops)
  case Nil
  then have "1 \<le> length ops" by (cases ops) auto
  with Nil.prems(4,5) have "(length ops + m - 1) div m = 1"
    by (intro div_nat_eqI) auto
  then show ?case by simp
next
  case (Cons ev evs)
  from Cons.prems(1) have r: "revOf ev = r" by simp
  from Cons.prems(2) r have nb: "\<not> (lastRev \<noteq> 0 \<and> revOf ev > lastRev)" by auto
  show ?case
  proof (cases "length ops = m")
    case True
    then have st: "stepTxns fl ev lastRev ops = [ops]" "stepOps fl ev lastRev ops = [opOf fl ev]"
      using nb Cons.prems(3) by (auto simp: stepTxns_def stepOps_def)
    have "Suc (length (loopTxns fl evs (revOf ev) [opOf fl ev]))
        = (length [opOf fl ev] + length evs + m - 1) div m"
      using Cons.prems(1,3,4) r by (intro Cons.IH) auto
    moreover have "(m + length (ev # evs) + m - 1) div m = Suc ((1 + length evs + m - 1) div m)"
    proof -
      have "m + length (ev # evs) + m - 1 = (1 + length evs + m - 1) + m" using Cons.prems(4) by simp
      then show ?thesis using Cons.prems(4) by (simp only: div_add_self2)
    qed
    ultimately show ?thesis using True by (simp add: st)
  next
    case False
    then have st: "stepTxns fl ev lastRev ops = []" "stepOps fl ev lastRev ops = ops @ [opOf fl ev]"
      using nb Cons.prems(3) by (auto simp: stepTxns_def stepOps_def)
    have "Suc (length (loopTxns fl evs (revOf ev) (ops @ [opOf fl ev])))
        = (length (ops @ [opOf fl ev]) + length evs + m - 1) div m"
      using Cons.prems(1,3,4,5) r False by (intro Cons.IH) auto
    then show ?thesis by (simp add: st)
  qed
qed

lemma responseTxns_group_one:
  assumes "\<forall>ev\<in>set grp. revOf ev = r" and "grp \<noteq> []"
    and "\<forall>k < length grp. int k \<noteq> sint (mmmaxTxnOps fl)"
  shows "responseTxns fl grp = [map (opOf fl) grp]"
  using group_no_size_flush [where evs = grp and r = r and lastRev = 0 and ops = "[]" and fl = fl] assms
  by (simp add: responseTxns_def)

lemma responseTxns_group_count:
  assumes "\<forall>ev\<in>set grp. revOf ev = r" and "grp \<noteq> []"
    and "sint (mmmaxTxnOps fl) = int m" and "1 \<le> m"
  shows "length (responseTxns fl grp) = (length grp + m - 1) div m"
  using group_count [where evs = grp and r = r and lastRev = 0 and ops = "[]" and fl = fl and m = m]
    assms loopOps_nonempty [of "[]" grp fl 0]
  by (simp add: responseTxns_def)

section \<open>The width of the transaction limit\<close>

lemma unat_small_sint:
  fixes w :: "64 word"
  assumes "unat w < 2 ^ 63"
  shows "sint w = int (unat w)"
proof -
  have "int (unat w) < int (2 ^ 63)" using assms by (simp only: of_nat_less_iff)
  then have u: "uint w < 2 ^ 63" by simp
  have "sint w = signed_take_bit 63 (uint w)" by (simp add: sint_uint)
  also have "\<dots> = uint w"
  proof (rule signed_take_bit_int_eq_self)
    have "(0::int) \<le> 2 ^ 63" by simp
    moreover have "0 \<le> uint w" by simp
    ultimately show "- (2 ^ 63) \<le> uint w" by linarith
    show "uint w < 2 ^ 63" by (rule u)
  qed
  finally show ?thesis by simp
qed

lemma sint_nonneg_unat:
  fixes w :: "64 word"
  assumes "0 \<le> sint w"
  shows "sint w = int (unat w)"
proof (rule unat_small_sint)
  from assms have nb: "\<not> bit (uint w) 63" by (simp add: sint_uint)
  have "uint w < 2 ^ 64" using uint_bounded [of w] by simp
  then have "take_bit 64 (uint w) = uint w" by (intro take_bit_int_eq_self) simp_all
  then have "uint w = take_bit (Suc 63) (uint w)" by simp
  also have "\<dots> = take_bit 63 (uint w)"
    using nb by (simp only: take_bit_Suc_from_most) simp
  finally have "uint w = take_bit 63 (uint w)" .
  then have "uint w < 2 ^ 63" using take_bit_int_less_exp [of 63 "uint w"] by simp
  then have "int (unat w) < int (2 ^ 63)" by simp
  then show "unat w < 2 ^ 63" by (simp only: of_nat_less_iff)
qed

section \<open>Transactions and response boundaries\<close>

lemma mmmaxTxnOps_runFlags: "mmmaxTxnOps (runFlags fl) = mmmaxTxnOps fl"
  by (simp add: runFlags_def defaultDestPrefix_def)

lemma clean_known: "list_all clean wrs \<Longrightarrow> list_all known (concat (map Events wrs))"
  by (induction wrs) (auto simp: clean_def)

lemma responses_order:
  "concat (concat (map (\<lambda>wr. responseTxns fl (Events wr)) wrs)) = map (opOf fl) (concat (map Events wrs))"
  by (induction wrs) (auto simp: responseTxns_order)

lemma responses_nonempty:
  "concat (map Events wrs) \<noteq> [] \<Longrightarrow> concat (map (\<lambda>wr. responseTxns fl (Events wr)) wrs) \<noteq> []"
  by (induction wrs) (auto simp: responseTxns_nonempty)

lemma watchTxns_accepts:
  "accepts dst \<Longrightarrow> list_all clean wrs \<Longrightarrow>
     watchTxns dst fl wrs = concat (map (\<lambda>wr. responseTxns fl (Events wr)) wrs)"
  by (simp add: watchTxns_def wcLoop_accepts committed_txnOk)

lemma mirrorTxns_accepts:
  assumes "accepts (dc e)" and "snd (syncBase e) = None"
    and "\<not> (mmnodestprefix fl \<and> 0 < length (mmdestprefix fl))"
    and "list_all clean (syncUpdates e)"
  shows "mirrorTxns e fl = concat (map (\<lambda>wr. responseTxns (runFlags fl) (Events wr)) (syncUpdates e))"
  unfolding mirrorTxns_def by (rule makeMirror_accepts(2) [OF assms])

text \<open>
  C9. In a run whose commits are all accepted, on a watch stream without compaction and
  with PUT and DELETE events only: at every boundary between two responses the committed
  transactions split in two. Those before the boundary are the transactions of the run on
  the earlier responses alone and hold exactly their events, in order; those after it
  are the transactions of the watch loop started afresh on the later responses and hold
  exactly theirs. So no transaction holds events of two responses, and events on both
  sides of a boundary, of one revision or not, take at least two transactions.
\<close>

theorem C9_no_carry_over:
  assumes "accepts (dc e)" and "snd (syncBase e) = None"
    and "\<not> (mmnodestprefix fl \<and> 0 < length (mmdestprefix fl))"
    and "syncUpdates e = wrs1 @ wrs2" and "list_all clean (wrs1 @ wrs2)"
  shows "mirrorTxns e fl
           = mirrorTxns (e\<lparr>syncUpdates := wrs1\<rparr>) fl @ watchTxns (dc e) (runFlags fl) wrs2
       \<and> map Some (concat (mirrorTxns (e\<lparr>syncUpdates := wrs1\<rparr>) fl))
           = map (classify (runFlags fl)) (concat (map Events wrs1))
       \<and> map Some (concat (watchTxns (dc e) (runFlags fl) wrs2))
           = map (classify (runFlags fl)) (concat (map Events wrs2))
       \<and> (concat (map Events wrs1) \<noteq> [] \<and> concat (map Events wrs2) \<noteq> []
            \<longrightarrow> 2 \<le> length (mirrorTxns e fl))"
proof -
  let ?R = "\<lambda>wr. responseTxns (runFlags fl) (Events wr)"
  from assms(5) have c1: "list_all clean wrs1" and c2: "list_all clean wrs2" by simp_all
  have m: "mirrorTxns e fl = concat (map ?R wrs1) @ concat (map ?R wrs2)"
    using mirrorTxns_accepts [OF assms(1,2,3)] assms(4,5) by simp
  have m1: "mirrorTxns (e\<lparr>syncUpdates := wrs1\<rparr>) fl = concat (map ?R wrs1)"
    using mirrorTxns_accepts [of "e\<lparr>syncUpdates := wrs1\<rparr>" fl] assms(1,2,3) c1 by simp
  have m2: "watchTxns (dc e) (runFlags fl) wrs2 = concat (map ?R wrs2)"
    by (rule watchTxns_accepts [OF assms(1) c2])
  have o1: "map Some (concat (concat (map ?R wrs1))) = map (classify (runFlags fl)) (concat (map Events wrs1))"
    by (simp only: responses_order known_ops [OF clean_known [OF c1]])
  have o2: "map Some (concat (concat (map ?R wrs2))) = map (classify (runFlags fl)) (concat (map Events wrs2))"
    by (simp only: responses_order known_ops [OF clean_known [OF c2]])
  have two: "2 \<le> length (mirrorTxns e fl)"
    if "concat (map Events wrs1) \<noteq> [] \<and> concat (map Events wrs2) \<noteq> []"
  proof -
    from that have "concat (map ?R wrs1) \<noteq> []" "concat (map ?R wrs2) \<noteq> []"
      using responses_nonempty [of wrs1 "runFlags fl"] responses_nonempty [of wrs2 "runFlags fl"]
      by blast+
    then have "1 \<le> length (concat (map ?R wrs1))" "1 \<le> length (concat (map ?R wrs2))"
      by (simp_all add: Suc_le_eq)
    then show ?thesis unfolding m by simp
  qed
  show ?thesis
    unfolding m1 m2 using m o1 o2 two by blast
qed


theorem C9_no_carry_over_witness:
  "revOf ev51 = revOf ev52
   \<and> mirrorTxns (envA [] [resp [ev51], resp [ev52]] okStore) flA
       = mirrorTxns (envA [] [resp [ev51]] okStore) flA @ watchTxns okStore (runFlags flA) [resp [ev52]]
   \<and> mirrorTxns (envA [] [resp [ev51]] okStore) flA = [[OpPut ''/a/1'' ''x'']]
   \<and> watchTxns okStore (runFlags flA) [resp [ev52]] = [[OpPut ''/a/2'' ''y'']]
   \<and> 2 \<le> length (mirrorTxns (envA [] [resp [ev51], resp [ev52]] okStore) flA)"
proof -
  have h: "accepts (dc (envA [] [resp [ev51], resp [ev52]] okStore))"
    "snd (syncBase (envA [] [resp [ev51], resp [ev52]] okStore)) = None"
    "\<not> (mmnodestprefix flA \<and> 0 < length (mmdestprefix flA))"
    "syncUpdates (envA [] [resp [ev51], resp [ev52]] okStore) = [resp [ev51]] @ [resp [ev52]]"
    "list_all clean ([resp [ev51]] @ [resp [ev52]])"
    by (simp_all add: run_defs accepts_def clean_def known_def)
  note t = C9_no_carry_over [OF h]
  have r: "mirrorTxns (envA [] [resp [ev51]] okStore) flA = [[OpPut ''/a/1'' ''x'']]"
    "watchTxns okStore (runFlags flA) [resp [ev52]] = [[OpPut ''/a/2'' ''y'']]"
    "revOf ev51 = revOf ev52"
    by (simp_all add: run_defs)
  have u: "(envA [] [resp [ev51], resp [ev52]] okStore)\<lparr>syncUpdates := [resp [ev51]]\<rparr>
      = envA [] [resp [ev51]] okStore"
    "dc (envA [] [resp [ev51], resp [ev52]] okStore) = okStore"
    by (simp_all add: envA_def)
  from t r show ?thesis unfolding u by (simp add: resp_def)
qed

section \<open>One revision in one response\<close>

lemma response_three:
  assumes "grp \<noteq> []" and "\<forall>ev\<in>set grp. revOf ev = r"
    and "pre = [] \<or> (revOf (last pre) \<noteq> 0 \<and> revOf (last pre) < r)"
    and "post = [] \<or> (r \<noteq> 0 \<and> r < revOf (hd post))"
  shows "responseTxns fl (pre @ grp @ post) = responseTxns fl pre @ responseTxns fl grp @ responseTxns fl post"
proof -
  from assms(1,2) have h: "revOf (hd (grp @ post)) = r" and l: "revOf (last grp) = r"
    by (cases grp; simp)+
  have "responseTxns fl (pre @ (grp @ post)) = responseTxns fl pre @ responseTxns fl (grp @ post)"
    using assms(3) h by (intro responseTxns_split) auto
  moreover have "responseTxns fl (grp @ post) = responseTxns fl grp @ responseTxns fl post"
    using assms(4) l by (intro responseTxns_split) auto
  ultimately show ?thesis by simp
qed

lemma mirror_group:
  assumes "accepts (dc e)" and "snd (syncBase e) = None"
    and "\<not> (mmnodestprefix fl \<and> 0 < length (mmdestprefix fl))"
    and "syncUpdates e = wrs1 @ wr # wrs2" and "list_all clean (syncUpdates e)"
    and "Events wr = pre @ grp @ post" and "grp \<noteq> []" and "\<forall>ev\<in>set grp. revOf ev = r"
    and "pre = [] \<or> (revOf (last pre) \<noteq> 0 \<and> revOf (last pre) < r)"
    and "post = [] \<or> (r \<noteq> 0 \<and> r < revOf (hd post))"
  shows "\<exists>T1 T2. mirrorTxns e fl = T1 @ responseTxns (runFlags fl) grp @ T2
        \<and> map Some (concat (responseTxns (runFlags fl) grp)) = map (classify (runFlags fl)) grp
        \<and> map Some (concat T1) = map (classify (runFlags fl)) (concat (map Events wrs1) @ pre)
        \<and> map Some (concat T2) = map (classify (runFlags fl)) (post @ concat (map Events wrs2))"
proof -
  let ?fl = "runFlags fl"
  let ?R = "\<lambda>wr. responseTxns ?fl (Events wr)"
  let ?T1 = "concat (map ?R wrs1) @ responseTxns ?fl pre"
  let ?T2 = "responseTxns ?fl post @ concat (map ?R wrs2)"
  from assms(4,5) have c1: "list_all clean wrs1" and c: "clean wr" and c2: "list_all clean wrs2"
    by simp_all
  from c assms(6) have k: "list_all known pre" "list_all known grp" "list_all known post"
    by (simp_all add: clean_def)
  have "mirrorTxns e fl = concat (map ?R wrs1) @ ?R wr @ concat (map ?R wrs2)"
    using mirrorTxns_accepts [OF assms(1,2,3,5)] assms(4) by simp
  also have "?R wr = responseTxns ?fl pre @ responseTxns ?fl grp @ responseTxns ?fl post"
    unfolding assms(6) by (rule response_three [OF assms(7-10)])
  finally have m: "mirrorTxns e fl = ?T1 @ responseTxns ?fl grp @ ?T2" by simp
  have g: "map Some (concat (responseTxns ?fl grp)) = map (classify ?fl) grp"
    by (simp only: responseTxns_order known_ops [OF k(2)])
  have t1: "map Some (concat ?T1) = map (classify ?fl) (concat (map Events wrs1) @ pre)"
    using known_ops [OF clean_known [OF c1], of ?fl] known_ops [OF k(1), of ?fl]
    by (simp add: responses_order responseTxns_order)
  have t2: "map Some (concat ?T2) = map (classify ?fl) (post @ concat (map Events wrs2))"
    using known_ops [OF clean_known [OF c2], of ?fl] known_ops [OF k(3), of ?fl]
    by (simp add: responses_order responseTxns_order)
  from m g t1 t2 show ?thesis by blast
qed

text \<open>
  C4, as amended. In a run whose commits are all accepted, on a watch stream without
  compaction and with PUT and DELETE events only, take one response and in it all the
  events of one revision \<open>r\<close>: the events before them have smaller revisions, not
  \<open>0\<close>, those after them greater ones. If they are at most \<^verbatim>\<open>mmmaxTxnOps\<close>, the
  committed transactions are: transactions holding exactly the events before the group,
  then one transaction holding exactly the group, in order, then transactions holding
  exactly the events after it.
\<close>

theorem C4_one_response_one_transaction:
  assumes "accepts (dc e)" and "snd (syncBase e) = None"
    and "\<not> (mmnodestprefix fl \<and> 0 < length (mmdestprefix fl))"
    and "syncUpdates e = wrs1 @ wr # wrs2" and "list_all clean (syncUpdates e)"
    and "Events wr = pre @ grp @ post" and "grp \<noteq> []" and "\<forall>ev\<in>set grp. revOf ev = r"
    and "pre = [] \<or> (revOf (last pre) \<noteq> 0 \<and> revOf (last pre) < r)"
    and "post = [] \<or> (r \<noteq> 0 \<and> r < revOf (hd post))"
    and "length grp \<le> unat (mmmaxTxnOps fl)"
  shows "\<exists>T1 g T2. mirrorTxns e fl = T1 @ [g] @ T2
        \<and> map Some g = map (classify (runFlags fl)) grp
        \<and> map Some (concat T1) = map (classify (runFlags fl)) (concat (map Events wrs1) @ pre)
        \<and> map Some (concat T2) = map (classify (runFlags fl)) (post @ concat (map Events wrs2))"
proof -
  let ?fl = "runFlags fl"
  have ns: "\<forall>k < length grp. int k \<noteq> sint (mmmaxTxnOps ?fl)"
  proof (intro allI impI notI)
    fix k assume k: "k < length grp" and eq: "int k = sint (mmmaxTxnOps ?fl)"
    then have "0 \<le> sint (mmmaxTxnOps fl)" by (simp add: mmmaxTxnOps_runFlags)
    from sint_nonneg_unat [OF this] eq have "int k = int (unat (mmmaxTxnOps fl))"
      by (simp only: mmmaxTxnOps_runFlags)
    then have "k = unat (mmmaxTxnOps fl)" by (simp only: of_nat_eq_iff)
    with k assms(11) show False by simp
  qed
  have one: "responseTxns ?fl grp = [map (opOf ?fl) grp]"
    by (rule responseTxns_group_one [OF assms(8,7) ns])
  from mirror_group [OF assms(1-10)] obtain T1 T2 where
    "mirrorTxns e fl = T1 @ responseTxns ?fl grp @ T2"
    "map Some (concat (responseTxns ?fl grp)) = map (classify ?fl) grp"
    "map Some (concat T1) = map (classify ?fl) (concat (map Events wrs1) @ pre)"
    "map Some (concat T2) = map (classify ?fl) (post @ concat (map Events wrs2))"
    by blast
  then show ?thesis unfolding one by (intro exI [of _ T1] exI [of _ "map (opOf ?fl) grp"] exI [of _ T2]) simp
qed


theorem C4_one_transaction_witness:
  "revOf ev51 = 5 \<and> revOf ev52 = 5 \<and> 5 < revOf (hd [ev6])
   \<and> length [ev51, ev52] \<le> unat (mmmaxTxnOps flA)
   \<and> (\<exists>T1 g T2. mirrorTxns (envA [] [resp [ev51, ev52, ev6]] okStore) flA = T1 @ [g] @ T2
        \<and> map Some g = map (classify (runFlags flA)) [ev51, ev52]
        \<and> map Some (concat T1) = map (classify (runFlags flA)) (concat (map Events ([] :: WatchResponse list)) @ [])
        \<and> map Some (concat T2) = map (classify (runFlags flA)) ([ev6] @ concat (map Events ([] :: WatchResponse list))))
   \<and> mirrorTxns (envA [] [resp [ev51, ev52, ev6]] okStore) flA
       = [[OpPut ''/a/1'' ''x'', OpPut ''/a/2'' ''y''], [OpPut ''/a/4'' ''u'']]"
proof -
  have h: "accepts (dc (envA [] [resp [ev51, ev52, ev6]] okStore))"
    "snd (syncBase (envA [] [resp [ev51, ev52, ev6]] okStore)) = None"
    "\<not> (mmnodestprefix flA \<and> 0 < length (mmdestprefix flA))"
    "syncUpdates (envA [] [resp [ev51, ev52, ev6]] okStore) = [] @ resp [ev51, ev52, ev6] # []"
    "list_all clean (syncUpdates (envA [] [resp [ev51, ev52, ev6]] okStore))"
    "Events (resp [ev51, ev52, ev6]) = [] @ [ev51, ev52] @ [ev6]"
    "[ev51, ev52] \<noteq> []"
    "\<forall>ev\<in>set [ev51, ev52]. revOf ev = 5"
    "[] = [] \<or> (revOf (last []) \<noteq> 0 \<and> revOf (last []) < 5)"
    "[ev6] = [] \<or> ((5::int) \<noteq> 0 \<and> 5 < revOf (hd [ev6]))"
    "length [ev51, ev52] \<le> unat (mmmaxTxnOps flA)"
    by (simp_all add: run_defs accepts_def clean_def known_def)
  note t = C4_one_response_one_transaction [OF h]
  have r: "revOf ev51 = 5" "revOf ev52 = 5" "5 < revOf (hd [ev6])"
    "length [ev51, ev52] \<le> unat (mmmaxTxnOps flA)"
    "mirrorTxns (envA [] [resp [ev51, ev52, ev6]] okStore) flA
       = [[OpPut ''/a/1'' ''x'', OpPut ''/a/2'' ''y''], [OpPut ''/a/4'' ''u'']]"
    by (simp_all add: run_defs)
  show ?thesis
    by (intro conjI) (rule r t)+
qed

text \<open>
  C4 as stated fails where the events of one revision come in two responses: two events
  of revision 5, under a limit of 128, are committed in two transactions.
\<close>

theorem C4_two_responses_two_transactions:
  "revOf ev51 = revOf ev52
   \<and> length [ev51, ev52] \<le> unat (mmmaxTxnOps flA)
   \<and> mirrorTxns (envA [] [resp [ev51], resp [ev52]] okStore) flA
       = [[OpPut ''/a/1'' ''x''], [OpPut ''/a/2'' ''y'']]"
  by (simp add: run_defs)

text \<open>
  C5, as amended. In the same setting, with a limit of at least one operation and a
  group larger than the limit (a slice holds fewer than \<open>2 ^ 63\<close> events), the group
  takes exactly \<open>\<lceil>count / limit\<rceil>\<close> transactions, between the transactions of the
  events before it and those of the events after it, and the operations of these
  transactions, taken in commit order, are the operations of the group's events in the
  order the events came.
\<close>

theorem C5_one_response_split:
  assumes "accepts (dc e)" and "snd (syncBase e) = None"
    and "\<not> (mmnodestprefix fl \<and> 0 < length (mmdestprefix fl))"
    and "syncUpdates e = wrs1 @ wr # wrs2" and "list_all clean (syncUpdates e)"
    and "Events wr = pre @ grp @ post" and "\<forall>ev\<in>set grp. revOf ev = r"
    and "pre = [] \<or> (revOf (last pre) \<noteq> 0 \<and> revOf (last pre) < r)"
    and "post = [] \<or> (r \<noteq> 0 \<and> r < revOf (hd post))"
    and "1 \<le> unat (mmmaxTxnOps fl)" and "unat (mmmaxTxnOps fl) < length grp"
    and "length grp < 2 ^ 63"
  shows "\<exists>T1 G T2. mirrorTxns e fl = T1 @ G @ T2
        \<and> length G = (length grp + unat (mmmaxTxnOps fl) - 1) div unat (mmmaxTxnOps fl)
        \<and> map Some (concat G) = map (classify (runFlags fl)) grp
        \<and> map Some (concat T1) = map (classify (runFlags fl)) (concat (map Events wrs1) @ pre)
        \<and> map Some (concat T2) = map (classify (runFlags fl)) (post @ concat (map Events wrs2))"
proof -
  let ?fl = "runFlags fl"
  let ?m = "unat (mmmaxTxnOps fl)"
  from assms(10,11) have ne: "grp \<noteq> []" by auto
  from assms(11,12) have "?m < 2 ^ 63" by simp
  from unat_small_sint [OF this] have s: "sint (mmmaxTxnOps ?fl) = int ?m"
    by (simp add: mmmaxTxnOps_runFlags)
  have len: "length (responseTxns ?fl grp) = (length grp + ?m - 1) div ?m"
    by (rule responseTxns_group_count [OF assms(7) ne s assms(10)])
  from mirror_group [OF assms(1-6) ne assms(7-9)] obtain T1 T2 where
    "mirrorTxns e fl = T1 @ responseTxns ?fl grp @ T2"
    "map Some (concat (responseTxns ?fl grp)) = map (classify ?fl) grp"
    "map Some (concat T1) = map (classify ?fl) (concat (map Events wrs1) @ pre)"
    "map Some (concat T2) = map (classify ?fl) (post @ concat (map Events wrs2))"
    by blast
  with len show ?thesis by blast
qed

theorem C5_split_witness:
  "revOf ev51 = 5 \<and> revOf ev52 = 5 \<and> revOf ev53 = 5 \<and> 5 < revOf (hd [ev6])
   \<and> 1 \<le> unat (mmmaxTxnOps flMax2) \<and> unat (mmmaxTxnOps flMax2) < length [ev51, ev52, ev53]
   \<and> (\<exists>T1 G T2. mirrorTxns (envA [] [resp [ev51, ev52, ev53, ev6]] okStore) flMax2 = T1 @ G @ T2
        \<and> length G = (length [ev51, ev52, ev53] + unat (mmmaxTxnOps flMax2) - 1) div unat (mmmaxTxnOps flMax2)
        \<and> map Some (concat G) = map (classify (runFlags flMax2)) [ev51, ev52, ev53]
        \<and> map Some (concat T1) = map (classify (runFlags flMax2)) (concat (map Events ([] :: WatchResponse list)) @ [])
        \<and> map Some (concat T2) = map (classify (runFlags flMax2)) ([ev6] @ concat (map Events ([] :: WatchResponse list))))
   \<and> mirrorTxns (envA [] [resp [ev51, ev52, ev53, ev6]] okStore) flMax2
       = [[OpPut ''/b/1'' ''x'', OpPut ''/b/2'' ''y''], [OpPut ''/b/3'' ''z''], [OpPut ''/b/4'' ''u'']]
   \<and> (length [ev51, ev52, ev53] + unat (mmmaxTxnOps flMax2) - 1) div unat (mmmaxTxnOps flMax2) = 2"
proof -
  have h: "accepts (dc (envA [] [resp [ev51, ev52, ev53, ev6]] okStore))"
    "snd (syncBase (envA [] [resp [ev51, ev52, ev53, ev6]] okStore)) = None"
    "\<not> (mmnodestprefix flMax2 \<and> 0 < length (mmdestprefix flMax2))"
    "syncUpdates (envA [] [resp [ev51, ev52, ev53, ev6]] okStore) = [] @ resp [ev51, ev52, ev53, ev6] # []"
    "list_all clean (syncUpdates (envA [] [resp [ev51, ev52, ev53, ev6]] okStore))"
    "Events (resp [ev51, ev52, ev53, ev6]) = [] @ [ev51, ev52, ev53] @ [ev6]"
    "\<forall>ev\<in>set [ev51, ev52, ev53]. revOf ev = 5"
    "[] = [] \<or> (revOf (last []) \<noteq> 0 \<and> revOf (last []) < 5)"
    "[ev6] = [] \<or> ((5::int) \<noteq> 0 \<and> 5 < revOf (hd [ev6]))"
    "1 \<le> unat (mmmaxTxnOps flMax2)"
    "unat (mmmaxTxnOps flMax2) < length [ev51, ev52, ev53]"
    "length [ev51, ev52, ev53] < 2 ^ 63"
    by (simp_all add: run_defs accepts_def clean_def known_def)
  note t = C5_one_response_split [OF h]
  have r: "revOf ev51 = 5" "revOf ev52 = 5" "revOf ev53 = 5" "5 < revOf (hd [ev6])"
    "1 \<le> unat (mmmaxTxnOps flMax2)" "unat (mmmaxTxnOps flMax2) < length [ev51, ev52, ev53]"
    "mirrorTxns (envA [] [resp [ev51, ev52, ev53, ev6]] okStore) flMax2
       = [[OpPut ''/b/1'' ''x'', OpPut ''/b/2'' ''y''], [OpPut ''/b/3'' ''z''], [OpPut ''/b/4'' ''u'']]"
    "(length [ev51, ev52, ev53] + unat (mmmaxTxnOps flMax2) - 1) div unat (mmmaxTxnOps flMax2) = 2"
    by (simp_all add: run_defs)
  show ?thesis
    by (intro conjI) (rule r t)+
qed

text \<open>
  C5 as stated fails where the events of one revision come in several responses: three
  events of revision 5 under a limit of 2 make \<open>\<lceil>3 / 2\<rceil> = 2\<close>, and are committed in three
  transactions.
\<close>

theorem C5_three_responses_three_transactions:
  "revOf ev51 = 5 \<and> revOf ev52 = 5 \<and> revOf ev53 = 5
   \<and> unat (mmmaxTxnOps flMax2) < length [ev51, ev52, ev53]
   \<and> (length [ev51, ev52, ev53] + unat (mmmaxTxnOps flMax2) - 1) div unat (mmmaxTxnOps flMax2) = 2
   \<and> mirrorTxns (envA [] [resp [ev51], resp [ev52], resp [ev53]] okStore) flMax2
       = [[OpPut ''/b/1'' ''x''], [OpPut ''/b/2'' ''y''], [OpPut ''/b/3'' ''z'']]"
  by (simp add: run_defs)

section \<open>Every transaction is well formed\<close>

lemma map_Some_length: "map Some ops = map f pend \<Longrightarrow> length ops = length pend"
  by (metis length_map)

lemma goodTxn_pending:
  assumes "map Some ops = map (classify fl) pend" and "list_all (\<lambda>e. revOf e = r) pend"
    and "pend \<noteq> []" and "length ops \<le> unat (mmmaxTxnOps fl)"
  shows "goodTxn fl (dn @ pend @ evs) ops"
proof -
  from assms(1,3) have "ops \<noteq> []" using map_Some_length by fastforce
  moreover have "sublist pend (dn @ pend @ evs)" by (rule sublist_appendI)
  ultimately show ?thesis using assms(1,2,4) unfolding goodTxn_def by blast
qed

lemma revFlush_inv:
  assumes "loopInv fl dn pend (ev # evs) lastRev ops"
  shows "revFlush dst ev lastRev ops s = Inl (out, ops', s') \<longrightarrow>
           (\<exists>r. trace s' = trace s @ [DcTxn ops r]) \<and> goodTxn fl (dn @ pend @ ev # evs) ops"
    and "revFlush dst ev lastRev ops s = Inr (ops', s') \<longrightarrow>
           (\<exists>t dn' pend'. trace s' = trace s @ t \<and> list_all (goodEffect fl (dn @ pend @ ev # evs)) t
              \<and> dn' @ pend' = dn @ pend \<and> midInv fl dn' pend' ev evs ops')"
proof -
  let ?es = "dn @ pend @ ev # evs"
  from assms have i: "map Some ops = map (classify fl) pend"
    and r: "list_all (\<lambda>e. revOf e = lastRev) pend"
    and z: "(lastRev = 0 \<and> pend = []) \<or> (lastRev \<noteq> 0 \<and> pend \<noteq> [])"
    and e: "lastRev \<le> revOf ev" "0 < revOf ev"
    and es: "list_all (\<lambda>e. lastRev \<le> revOf e \<and> 0 < revOf e) evs"
    and so: "sorted (map revOf (ev # evs))"
    and m: "length ops \<le> unat (mmmaxTxnOps fl)"
    and n: "length ?es < 2 ^ 63"
    by (simp_all add: loopInv_def)
  from so have so1: "list_all (\<lambda>e. revOf ev \<le> revOf e) evs" and so2: "sorted (map revOf evs)"
    by (simp_all add: list_all_iff)
  from so1 es have es': "list_all (\<lambda>e. revOf ev \<le> revOf e \<and> 0 < revOf e) evs"
    by (simp add: list_all_iff)
  show "revFlush dst ev lastRev ops s = Inl (out, ops', s') \<longrightarrow>
           (\<exists>r. trace s' = trace s @ [DcTxn ops r]) \<and> goodTxn fl ?es ops"
  proof
    assume a: "revFlush dst ev lastRev ops s = Inl (out, ops', s')"
    then have b: "lastRev \<noteq> 0" and f: "flush dst ops s = Inl (out, ops', s')"
      by (auto simp: revFlush_def revOf_def Let_def split: if_splits)
    from b z have "pend \<noteq> []" by simp
    from goodTxn_pending [OF i r this m] have "goodTxn fl ?es ops" .
    moreover from f have "\<exists>r. trace s' = trace s @ [DcTxn ops r]"
      by (auto simp: flush_eq split: option.splits)
    ultimately show "(\<exists>r. trace s' = trace s @ [DcTxn ops r]) \<and> goodTxn fl ?es ops" by simp
  qed
  show "revFlush dst ev lastRev ops s = Inr (ops', s') \<longrightarrow>
           (\<exists>t dn' pend'. trace s' = trace s @ t \<and> list_all (goodEffect fl ?es) t
              \<and> dn' @ pend' = dn @ pend \<and> midInv fl dn' pend' ev evs ops')"
  proof
    assume a: "revFlush dst ev lastRev ops s = Inr (ops', s')"
    show "\<exists>t dn' pend'. trace s' = trace s @ t \<and> list_all (goodEffect fl ?es) t
              \<and> dn' @ pend' = dn @ pend \<and> midInv fl dn' pend' ev evs ops'"
    proof (cases "lastRev \<noteq> 0 \<and> revOf ev > lastRev")
      case True
      with a have f: "flush dst ops s = Inr (ops', s')"
        by (simp add: revFlush_def revOf_def Let_def)
      then have o: "ops' = []" and t: "trace s' = trace s @ [DcTxn ops None]"
        by (auto simp: flush_eq split: option.splits)
      from True z have "pend \<noteq> []" by simp
      from goodTxn_pending [OF i r this m] have g: "goodTxn fl ?es ops" .
      have "midInv fl (dn @ pend) [] ev evs []"
        using e es' so2 n by (simp add: midInv_def)
      with o t g show ?thesis
        by (intro exI [of _ "[DcTxn ops None]"] exI [of _ "dn @ pend"] exI [of _ "[]"]) simp
    next
      case False
      with a have o: "ops' = ops" "s' = s" by (auto simp: revFlush_def revOf_def Let_def)
      have "list_all (\<lambda>e. revOf e = revOf ev) pend"
      proof (cases "pend = []")
        case True
        then show ?thesis by simp
      next
        case ne: False
        with z have "lastRev \<noteq> 0" by simp
        with False e have "revOf ev = lastRev" by simp
        with r show ?thesis by simp
      qed
      then have "midInv fl dn pend ev evs ops"
        using i e es' so2 m n by (simp add: midInv_def)
      with o show ?thesis
        by (intro exI [of _ "[]"] exI [of _ dn] exI [of _ pend]) simp
    qed
  qed
qed

lemma sint_zero_word:
  fixes w :: "64 word"
  assumes "sint w = 0"
  shows "w = 0"
proof -
  from assms have "0 \<le> sint w" by simp
  from sint_nonneg_unat [OF this] assms have "int (unat w) = 0" by (simp only:)
  then have "unat w = 0" by (simp only: of_nat_eq_0_iff)
  then show ?thesis by (simp only: unat_eq_0)
qed

lemma sizeFlush_inv:
  assumes "midInv fl dn pend ev evs ops" and "mmmaxTxnOps fl \<noteq> 0"
  shows "sizeFlush dst fl ops s = Inl (out, ops', s') \<longrightarrow>
           (\<exists>r. trace s' = trace s @ [DcTxn ops r]) \<and> goodTxn fl (dn @ pend @ ev # evs) ops"
    and "sizeFlush dst fl ops s = Inr (ops', s') \<longrightarrow>
           (\<exists>t dn' pend'. trace s' = trace s @ t \<and> list_all (goodEffect fl (dn @ pend @ ev # evs)) t
              \<and> dn' @ pend' = dn @ pend \<and> midInv fl dn' pend' ev evs ops'
              \<and> Suc (length ops') \<le> unat (mmmaxTxnOps fl))"
proof -
  let ?es = "dn @ pend @ ev # evs"
  let ?m = "unat (mmmaxTxnOps fl)"
  from assms(1) have i: "map Some ops = map (classify fl) pend"
    and r: "list_all (\<lambda>e. revOf e = revOf ev) pend"
    and e: "0 < revOf ev"
    and es: "list_all (\<lambda>e. revOf ev \<le> revOf e \<and> 0 < revOf e) evs"
    and so: "sorted (map revOf evs)"
    and m: "length ops \<le> ?m"
    and n: "length ?es < 2 ^ 63"
    by (simp_all add: midInv_def)
  from assms(2) have m1: "1 \<le> ?m" by (simp add: unat_gt_0 Suc_le_eq)
  have l: "length ops = length pend" using i by (rule map_Some_length)
  have good: "goodTxn fl ?es ops" if "int (length ops) = sint (mmmaxTxnOps fl)"
  proof -
    have "pend \<noteq> []"
    proof
      assume "pend = []"
      with l that have "sint (mmmaxTxnOps fl) = 0" by simp
      with assms(2) show False using sint_zero_word by blast
    qed
    from goodTxn_pending [OF i r this m] show ?thesis .
  qed
  show "sizeFlush dst fl ops s = Inl (out, ops', s') \<longrightarrow>
           (\<exists>r. trace s' = trace s @ [DcTxn ops r]) \<and> goodTxn fl ?es ops"
  proof
    assume a: "sizeFlush dst fl ops s = Inl (out, ops', s')"
    then have b: "int (length ops) = sint (mmmaxTxnOps fl)" and f: "flush dst ops s = Inl (out, ops', s')"
      by (auto simp: sizeFlush_def split: if_splits)
    from f have "\<exists>r. trace s' = trace s @ [DcTxn ops r]"
      by (auto simp: flush_eq split: option.splits)
    with good [OF b] show "(\<exists>r. trace s' = trace s @ [DcTxn ops r]) \<and> goodTxn fl ?es ops" by simp
  qed
  show "sizeFlush dst fl ops s = Inr (ops', s') \<longrightarrow>
           (\<exists>t dn' pend'. trace s' = trace s @ t \<and> list_all (goodEffect fl ?es) t
              \<and> dn' @ pend' = dn @ pend \<and> midInv fl dn' pend' ev evs ops'
              \<and> Suc (length ops') \<le> ?m)"
  proof
    assume a: "sizeFlush dst fl ops s = Inr (ops', s')"
    show "\<exists>t dn' pend'. trace s' = trace s @ t \<and> list_all (goodEffect fl ?es) t
              \<and> dn' @ pend' = dn @ pend \<and> midInv fl dn' pend' ev evs ops'
              \<and> Suc (length ops') \<le> ?m"
    proof (cases "int (length ops) = sint (mmmaxTxnOps fl)")
      case True
      with a have f: "flush dst ops s = Inr (ops', s')" by (simp add: sizeFlush_def)
      then have o: "ops' = []" and t: "trace s' = trace s @ [DcTxn ops None]"
        by (auto simp: flush_eq split: option.splits)
      have "midInv fl (dn @ pend) [] ev evs []"
        using e es so n by (simp add: midInv_def)
      with o t good [OF True] m1 show ?thesis
        by (intro exI [of _ "[DcTxn ops None]"] exI [of _ "dn @ pend"] exI [of _ "[]"]) simp
    next
      case False
      with a have o: "ops' = ops" "s' = s" by (auto simp: sizeFlush_def)
      have "length ops \<noteq> ?m"
      proof (cases "unat (mmmaxTxnOps fl) < 2 ^ 63")
        case True
        from unat_small_sint [OF this] False show ?thesis by auto
      next
        case big: False
        from n l have "length ops < 2 ^ 63" by simp
        with big show ?thesis by simp
      qed
      with m have "Suc (length ops) \<le> ?m" by simp
      with o assms(1) show ?thesis
        by (intro exI [of _ "[]"] exI [of _ dn] exI [of _ pend]) simp
    qed
  qed
qed

lemma appendOp_inv:
  assumes "midInv fl dn pend ev evs ops" and "Suc (length ops) \<le> unat (mmmaxTxnOps fl)"
    and "appendOp fl ev ops s = Inr (lr, ops', s')"
  shows "trace s' = trace s \<and> loopInv fl dn (pend @ [ev]) evs lr ops'"
proof -
  from assms(3) obtain op where c: "classify fl ev = Some op"
    and o: "lr = revOf ev" "ops' = ops @ [op]" "s' = s\<lparr>total := total s + 1\<rparr>"
    by (auto simp: appendOp_def revOf_def split: option.splits)
  from assms(1) have "map Some ops = map (classify fl) pend"
    "list_all (\<lambda>e. revOf e = revOf ev) pend" "0 < revOf ev"
    "list_all (\<lambda>e. revOf ev \<le> revOf e \<and> 0 < revOf e) evs"
    "sorted (map revOf evs)" "length (dn @ pend @ ev # evs) < 2 ^ 63"
    by (simp_all add: midInv_def)
  with assms(2) c o show ?thesis by (simp add: loopInv_def)
qed

lemma appendOp_Inl_trace: "appendOp fl ev ops s = Inl (out, ops', s') \<Longrightarrow> trace s' = trace s"
  by (auto simp: appendOp_def split: option.splits)

lemma eventStep_inv:
  assumes "loopInv fl dn pend (ev # evs) lastRev ops" and "mmmaxTxnOps fl \<noteq> 0"
  shows "eventStep dst fl ev lastRev ops s = Inl (out, ops', s') \<longrightarrow>
           (\<exists>t. trace s' = trace s @ t \<and> list_all (goodEffect fl (dn @ pend @ ev # evs)) t)"
    and "eventStep dst fl ev lastRev ops s = Inr (lr, ops', s') \<longrightarrow>
           (\<exists>t dn' pend'. trace s' = trace s @ t \<and> list_all (goodEffect fl (dn @ pend @ ev # evs)) t
              \<and> dn' @ pend' @ evs = dn @ pend @ ev # evs \<and> loopInv fl dn' pend' evs lr ops')"
proof -
  let ?es = "dn @ pend @ ev # evs"
  note rv = revFlush_inv [OF assms(1)]
  have sz: "\<exists>t dn2 pend2. trace s2 = trace s @ t \<and> list_all (goodEffect fl ?es) t
        \<and> dn2 @ pend2 = dn @ pend \<and> midInv fl dn2 pend2 ev evs ops2
        \<and> Suc (length ops2) \<le> unat (mmmaxTxnOps fl)"
    if r: "revFlush dst ev lastRev ops s = Inr (ops1, s1)"
      and z: "sizeFlush dst fl ops1 s1 = Inr (ops2, s2)" for ops1 s1 ops2 s2
  proof -
    from rv(2) [of dst s ops1 s1] r obtain t1 dn1 pend1 where
      a: "trace s1 = trace s @ t1" "list_all (goodEffect fl ?es) t1"
        "dn1 @ pend1 = dn @ pend" "midInv fl dn1 pend1 ev evs ops1" by blast
    from a(3) have e1: "dn1 @ pend1 @ ev # evs = ?es" by (metis append_assoc)
    from sizeFlush_inv(2) [OF a(4) assms(2), of dst s1 ops2 s2] z obtain t2 dn2 pend2 where
      b: "trace s2 = trace s1 @ t2" "list_all (goodEffect fl ?es) t2"
        "dn2 @ pend2 = dn1 @ pend1" "midInv fl dn2 pend2 ev evs ops2"
        "Suc (length ops2) \<le> unat (mmmaxTxnOps fl)" unfolding e1 by blast
    from a b show ?thesis
      by (intro exI [of _ "t1 @ t2"] exI [of _ dn2] exI [of _ pend2]) simp
  qed
  show "eventStep dst fl ev lastRev ops s = Inl (out, ops', s') \<longrightarrow>
           (\<exists>t. trace s' = trace s @ t \<and> list_all (goodEffect fl ?es) t)"
  proof
    assume "eventStep dst fl ev lastRev ops s = Inl (out, ops', s')"
    then show "\<exists>t. trace s' = trace s @ t \<and> list_all (goodEffect fl ?es) t"
    proof (cases rule: eventStep_Inl)
      case rev
      with rv(1) [of dst s out ops' s'] obtain r where "trace s' = trace s @ [DcTxn ops r]"
        "goodTxn fl ?es ops" by blast
      then show ?thesis by (intro exI [of _ "[DcTxn ops r]"]) simp
    next
      case (size ops1 s1)
      from rv(2) [of dst s ops1 s1] size(1) obtain t1 dn1 pend1 where
        a: "trace s1 = trace s @ t1" "list_all (goodEffect fl ?es) t1"
          "dn1 @ pend1 = dn @ pend" "midInv fl dn1 pend1 ev evs ops1" by blast
      from a(3) have e1: "dn1 @ pend1 @ ev # evs = ?es" by (metis append_assoc)
      from sizeFlush_inv(1) [OF a(4) assms(2), of dst s1 out ops' s'] size(2) obtain r where
        "trace s' = trace s1 @ [DcTxn ops1 r]" "goodTxn fl ?es ops1" unfolding e1 by blast
      with a show ?thesis by (intro exI [of _ "t1 @ [DcTxn ops1 r]"]) simp
    next
      case (append ops1 s1 ops2 s2)
      from sz [OF append(1,2)] obtain t where "trace s2 = trace s @ t" "list_all (goodEffect fl ?es) t"
        by blast
      moreover from append(3) have "trace s' = trace s2" by (rule appendOp_Inl_trace)
      ultimately show ?thesis by auto
    qed
  qed
  show "eventStep dst fl ev lastRev ops s = Inr (lr, ops', s') \<longrightarrow>
           (\<exists>t dn' pend'. trace s' = trace s @ t \<and> list_all (goodEffect fl ?es) t
              \<and> dn' @ pend' @ evs = ?es \<and> loopInv fl dn' pend' evs lr ops')"
  proof
    assume "eventStep dst fl ev lastRev ops s = Inr (lr, ops', s')"
    then show "\<exists>t dn' pend'. trace s' = trace s @ t \<and> list_all (goodEffect fl ?es) t
              \<and> dn' @ pend' @ evs = ?es \<and> loopInv fl dn' pend' evs lr ops'"
    proof (cases rule: eventStep_Inr)
      case (1 ops1 s1 ops2 s2)
      from sz [OF 1(1,2)] obtain t dn2 pend2 where
        b: "trace s2 = trace s @ t" "list_all (goodEffect fl ?es) t"
          "dn2 @ pend2 = dn @ pend" "midInv fl dn2 pend2 ev evs ops2"
          "Suc (length ops2) \<le> unat (mmmaxTxnOps fl)" by blast
      from appendOp_inv [OF b(4,5) 1(3)]
      have c: "trace s' = trace s2" "loopInv fl dn2 (pend2 @ [ev]) evs lr ops'" by simp_all
      from b(3) have "dn2 @ (pend2 @ [ev]) @ evs = ?es" by (metis append_assoc append_Cons append_Nil)
      with b c show ?thesis
        by (intro exI [of _ t] exI [of _ dn2] exI [of _ "pend2 @ [ev]"]) simp
    qed
  qed
qed

lemma eventsLoop_inv:
  assumes "mmmaxTxnOps fl \<noteq> 0"
  shows "loopInv fl dn pend evs lastRev ops \<Longrightarrow>
     (eventsLoop dst fl evs lastRev ops s = Inl (out, ops', s') \<longrightarrow>
        (\<exists>t. trace s' = trace s @ t \<and> list_all (goodEffect fl (dn @ pend @ evs)) t))
     \<and> (eventsLoop dst fl evs lastRev ops s = Inr (ops', s') \<longrightarrow>
        (\<exists>t. trace s' = trace s @ t \<and> list_all (goodEffect fl (dn @ pend @ evs)) t
           \<and> (ops' = [] \<or> goodTxn fl (dn @ pend @ evs) ops')))"
proof (induction evs arbitrary: dn pend lastRev ops s)
  case Nil
  then have i: "map Some ops = map (classify fl) pend" "list_all (\<lambda>e. revOf e = lastRev) pend"
    "length ops \<le> unat (mmmaxTxnOps fl)"
    by (simp_all add: loopInv_def)
  have "ops = [] \<or> goodTxn fl (dn @ pend @ []) ops"
  proof (cases "pend = []")
    case True
    with i(1) show ?thesis by simp
  next
    case False
    from goodTxn_pending [OF i(1,2) False i(3)] show ?thesis by blast
  qed
  then show ?case by auto
next
  case (Cons ev evs)
  let ?es = "dn @ pend @ ev # evs"
  note st = eventStep_inv [OF Cons.prems assms]
  show ?case
  proof (cases "eventStep dst fl ev lastRev ops s")
    case (Inl a)
    then have "eventsLoop dst fl (ev # evs) lastRev ops s = Inl a" by simp
    with Inl st(1) [of dst s out ops' s'] show ?thesis by auto
  next
    case (Inr b)
    obtain lr ops1 s1 where b: "b = (lr, ops1, s1)" by (cases b)
    from st(2) [of dst s lr ops1 s1] Inr b obtain t dn' pend' where
      a: "trace s1 = trace s @ t" "list_all (goodEffect fl ?es) t"
        "dn' @ pend' @ evs = ?es" "loopInv fl dn' pend' evs lr ops1" by blast
    have e: "eventsLoop dst fl (ev # evs) lastRev ops s = eventsLoop dst fl evs lr ops1 s1"
      using Inr b by simp
    from Cons.IH [OF a(4), of s1] have ih:
      "(eventsLoop dst fl evs lr ops1 s1 = Inl (out, ops', s') \<longrightarrow>
          (\<exists>t. trace s' = trace s1 @ t \<and> list_all (goodEffect fl ?es) t))
       \<and> (eventsLoop dst fl evs lr ops1 s1 = Inr (ops', s') \<longrightarrow>
          (\<exists>t. trace s' = trace s1 @ t \<and> list_all (goodEffect fl ?es) t
             \<and> (ops' = [] \<or> goodTxn fl ?es ops')))"
      unfolding a(3) .
    show ?thesis
    proof (intro conjI impI)
      assume "eventsLoop dst fl (ev # evs) lastRev ops s = Inl (out, ops', s')"
      with e ih obtain t2 where "trace s' = trace s1 @ t2" "list_all (goodEffect fl ?es) t2" by auto
      with a show "\<exists>t. trace s' = trace s @ t \<and> list_all (goodEffect fl ?es) t"
        by (intro exI [of _ "t @ t2"]) simp
    next
      assume "eventsLoop dst fl (ev # evs) lastRev ops s = Inr (ops', s')"
      with e ih obtain t2 where "trace s' = trace s1 @ t2" "list_all (goodEffect fl ?es) t2"
        "ops' = [] \<or> goodTxn fl ?es ops'" by auto
      with a show "\<exists>t. trace s' = trace s @ t \<and> list_all (goodEffect fl ?es) t
           \<and> (ops' = [] \<or> goodTxn fl ?es ops')"
        by (intro exI [of _ "t @ t2"]) simp
    qed
  qed
qed

lemma watchResponse_inv:
  assumes "mmmaxTxnOps fl \<noteq> 0" and "ordered wr"
    and "watchResponse dst fl wr s = Inl (out, ops', s') \<or> watchResponse dst fl wr s = Inr s'"
  shows "\<exists>t. trace s' = trace s @ t \<and> list_all (goodEffect fl (Events wr)) t"
proof (cases "CompactRevision wr = 0")
  case False
  with assms(3) have "s' = s" by (auto simp: watchResponse_def)
  then show ?thesis by simp
next
  case True
  from assms(2) have "loopInv fl [] [] (Events wr) 0 []"
    by (auto simp: loopInv_def ordered_def list_all_iff intro: less_imp_le)
  from eventsLoop_inv [OF assms(1) this] have el:
    "\<And>s out ops' s'. eventsLoop dst fl (Events wr) 0 [] s = Inl (out, ops', s') \<Longrightarrow>
        \<exists>t. trace s' = trace s @ t \<and> list_all (goodEffect fl (Events wr)) t"
    "\<And>s ops' s'. eventsLoop dst fl (Events wr) 0 [] s = Inr (ops', s') \<Longrightarrow>
        \<exists>t. trace s' = trace s @ t \<and> list_all (goodEffect fl (Events wr)) t
           \<and> (ops' = [] \<or> goodTxn fl (Events wr) ops')"
    by simp_all
  show ?thesis
  proof (cases "eventsLoop dst fl (Events wr) 0 [] s")
    case (Inl a)
    with assms(3) True have "eventsLoop dst fl (Events wr) 0 [] s = Inl (out, ops', s')"
      by (simp add: watchResponse_def)
    then show ?thesis by (rule el(1))
  next
    case (Inr b)
    obtain ops1 s1 where b: "b = (ops1, s1)" by (cases b)
    from el(2) [of s ops1 s1] Inr b obtain t where
      t: "trace s1 = trace s @ t" "list_all (goodEffect fl (Events wr)) t"
        "ops1 = [] \<or> goodTxn fl (Events wr) ops1" by blast
    show ?thesis
    proof (cases "ops1 = []")
      case e: True
      with assms(3) True Inr b have "s' = s1" by (simp add: watchResponse_def)
      with t show ?thesis by auto
    next
      case ne: False
      with t(3) have g: "goodTxn fl (Events wr) ops1" by simp
      from assms(3) True Inr b ne
      have "\<exists>r. trace s' = trace s1 @ [DcTxn ops1 r]"
        by (auto simp: watchResponse_def flush_eq split: option.splits sum.splits)
      then obtain r where "trace s' = trace s1 @ [DcTxn ops1 r]" ..
      with t g show ?thesis by (intro exI [of _ "t @ [DcTxn ops1 r]"]) simp
    qed
  qed
qed

lemma wcLoop_inv:
  assumes "mmmaxTxnOps fl \<noteq> 0"
  shows "list_all ordered wrs \<Longrightarrow> wcLoop dst fl wrs s = (out, ops', s') \<Longrightarrow>
     \<exists>t. trace s' = trace s @ t \<and> (\<forall>x\<in>set t. \<exists>wr\<in>set wrs. goodEffect fl (Events wr) x)"
proof (induction wrs arbitrary: s)
  case Nil
  then show ?case by auto
next
  case (Cons wr wrs)
  from Cons.prems(1) have o: "ordered wr" "list_all ordered wrs" by simp_all
  show ?case
  proof (cases "watchResponse dst fl wr s")
    case (Inl a)
    with Cons.prems(2) have "watchResponse dst fl wr s = Inl (out, ops', s')" by simp
    with watchResponse_inv [OF assms o(1), of dst s out ops' s'] obtain t where
      "trace s' = trace s @ t" "list_all (goodEffect fl (Events wr)) t" by blast
    then show ?thesis by (intro exI [of _ t]) (auto simp: list_all_iff)
  next
    case (Inr s1)
    with watchResponse_inv [OF assms o(1), of dst s out ops' s1] obtain t where
      t: "trace s1 = trace s @ t" "list_all (goodEffect fl (Events wr)) t" by blast
    from Cons.prems(2) Inr have "wcLoop dst fl wrs s1 = (out, ops', s')" by simp
    from Cons.IH [OF o(2) this] obtain t2 where
      "trace s' = trace s1 @ t2" "\<forall>x\<in>set t2. \<exists>wr\<in>set wrs. goodEffect fl (Events wr) x" by blast
    with t show ?thesis by (intro exI [of _ "t @ t2"]) (auto simp: list_all_iff)
  qed
qed

lemma kvsLoop_no_txn:
  "kvsLoop dst fl kvs s = (r, s') \<Longrightarrow> DcTxn ops res \<in> set (trace s') \<Longrightarrow> DcTxn ops res \<in> set (trace s)"
proof (induction kvs arbitrary: s)
  case Nil
  then show ?case by simp
next
  case (Cons kv kvs)
  show ?case
  proof (cases "dst (trace s) (Put (modifyPrefix fl (Key kv)) (Value kv))")
    case None
    with Cons.prems(1) have "kvsLoop dst fl kvs
        (s\<lparr>trace := trace s @ [DcPut (modifyPrefix fl (Key kv)) (Value kv) None], total := total s + 1\<rparr>) = (r, s')"
      by (simp add: dcPut_eq)
    from Cons.IH [OF this Cons.prems(2)] show ?thesis by simp
  next
    case (Some err)
    with Cons.prems show ?thesis by (auto simp: dcPut_eq)
  qed
qed

lemma rcLoop_no_txn:
  "rcLoop dst fl rs s = (r, s') \<Longrightarrow> DcTxn ops res \<in> set (trace s') \<Longrightarrow> DcTxn ops res \<in> set (trace s)"
proof (induction rs arbitrary: s)
  case Nil
  then show ?case by simp
next
  case (Cons a rs)
  obtain r1 s1 where k: "kvsLoop dst fl a s = (r1, s1)" by (cases "kvsLoop dst fl a s")
  show ?case
  proof (cases r1)
    case None
    with Cons.prems(1) k have "rcLoop dst fl rs s1 = (r, s')" by simp
    from Cons.IH [OF this Cons.prems(2)] have "DcTxn ops res \<in> set (trace s1)" .
    with k show ?thesis by (rule kvsLoop_no_txn)
  next
    case (Some err)
    with Cons.prems k have "DcTxn ops res \<in> set (trace s1)" by auto
    with k show ?thesis by (rule kvsLoop_no_txn)
  qed
qed

lemma makeMirror_good:
  assumes "mmmaxTxnOps fl \<noteq> 0" and "list_all ordered (syncUpdates e)"
    and "DcTxn ops res \<in> set (trace (snd (snd (makeMirror e fl))))"
  shows "\<exists>wr\<in>set (syncUpdates e). goodTxn (runFlags fl) (Events wr) ops"
proof -
  let ?fl = "runFlags fl"
  have mx: "mmmaxTxnOps ?fl \<noteq> 0" using assms(1) by (simp add: mmmaxTxnOps_runFlags)
  have w: "\<exists>wr\<in>set (syncUpdates e). goodTxn ?fl (Events wr) ops"
    if "wcLoop (dc e) ?fl (syncUpdates e) s = (out, ops', s')" "DcTxn ops res \<in> set (trace s')"
      "DcTxn ops res \<notin> set (trace s)" for s out ops' s'
  proof -
    from wcLoop_inv [OF mx assms(2) that(1)] obtain t where
      t: "trace s' = trace s @ t" "\<forall>x\<in>set t. \<exists>wr\<in>set (syncUpdates e). goodEffect ?fl (Events wr) x"
      by blast
    with that(2,3) have "DcTxn ops res \<in> set t" by simp
    with t(2) show ?thesis by fastforce
  qed
  show ?thesis
  proof (cases "mmnodestprefix fl \<and> length (mmdestprefix fl) > 0")
    case True
    with assms(3) show ?thesis by (simp add: makeMirror_def)
  next
    case False
    show ?thesis
    proof (cases "startRevOf (mmrev fl) = 0")
      case nz: False
      let ?s = "\<lparr>total = 0, trace = [GoProgress, NewSyncer (mmprefix fl) (startRevOf (mmrev fl)), SyncUpdates]\<rparr>"
      obtain out ops' s' where r: "wcLoop (dc e) fl (syncUpdates e) ?s = (out, ops', s')"
        by (cases "wcLoop (dc e) fl (syncUpdates e) ?s")
      from False nz have f: "?fl = fl" by (simp add: runFlags_def)
      from False nz r have "makeMirror e fl = (out, ops', s')" by (auto simp: makeMirror_def Let_def)
      with assms(3) have "DcTxn ops res \<in> set (trace s')" by simp
      with w [of ?s out ops' s'] r f show ?thesis by simp
    next
      case z: True
      let ?s2 = "\<lparr>total = 0, trace = [GoProgress, NewSyncer (mmprefix fl) 0, SyncBase]\<rparr>"
      from z have f: "?fl = defaultDestPrefix fl" by (simp add: runFlags_def)
      obtain r s3 where rc: "rcLoop (dc e) ?fl (fst (syncBase e)) ?s2 = (r, s3)"
        by (cases "rcLoop (dc e) ?fl (fst (syncBase e)) ?s2")
      have n3: "DcTxn ops res \<notin> set (trace s3)"
        using rcLoop_no_txn [OF rc, of ops res] by auto
      show ?thesis
      proof (cases "r = None \<and> snd (syncBase e) = None")
        case True
        let ?s4 = "s3\<lparr>trace := trace s3 @ [SyncUpdates]\<rparr>"
        obtain out ops' s' where wl: "wcLoop (dc e) ?fl (syncUpdates e) ?s4 = (out, ops', s')"
          by (cases "wcLoop (dc e) ?fl (syncUpdates e) ?s4")
        from False z rc True wl have "makeMirror e fl = (out, ops', s')"
          by (auto simp: makeMirror_def Let_def f)
        with assms(3) have "DcTxn ops res \<in> set (trace s')" by simp
        moreover from n3 have "DcTxn ops res \<notin> set (trace ?s4)" by simp
        ultimately show ?thesis using w [OF wl] by blast
      next
        case False2: False
        with False z rc have "snd (snd (makeMirror e fl)) = s3"
          by (auto simp: makeMirror_def Let_def f split: option.splits)
        with assms(3) n3 show ?thesis by simp
      qed
    qed
  qed
qed

text \<open>
  C10. With a limit of at least one operation, and responses as the change source
  promises them (positive, non-decreasing revisions), every transaction handed to the
  destination in a run, accepted or not, is non-empty, has at most \<^verbatim>\<open>mmmaxTxnOps\<close>
  operations, and consists of the operations of consecutive events of one response that
  all have the same revision. This holds whatever the destination answers and however
  the run ends.
\<close>

theorem C10_transactions_well_formed:
  assumes "1 \<le> unat (mmmaxTxnOps fl)" and "list_all ordered (syncUpdates e)"
    and "DcTxn ops res \<in> set (trace (snd (snd (makeMirror e fl))))"
  shows "ops \<noteq> [] \<and> length ops \<le> unat (mmmaxTxnOps fl)
       \<and> (\<exists>wr\<in>set (syncUpdates e). \<exists>seg r. sublist seg (Events wr)
             \<and> map Some ops = map (classify (runFlags fl)) seg
             \<and> (\<forall>ev\<in>set seg. revOf ev = r))"
proof -
  from assms(1) have "mmmaxTxnOps fl \<noteq> 0" by auto
  from makeMirror_good [OF this assms(2,3)] obtain wr where
    "wr \<in> set (syncUpdates e)" "goodTxn (runFlags fl) (Events wr) ops" by blast
  then show ?thesis
    unfolding goodTxn_def mmmaxTxnOps_runFlags list_all_iff by blast
qed

theorem C10_well_formed_witness:
  "1 \<le> unat (mmmaxTxnOps flMax2)
   \<and> DcTxn [OpPut ''/b/3'' ''z''] None
       \<in> set (trace (snd (snd (makeMirror (envA [] [resp [ev51, ev52, ev53, ev6]] okStore) flMax2))))
   \<and> [OpPut ''/b/3'' ''z''] \<noteq> []
   \<and> length [OpPut ''/b/3'' ''z''] \<le> unat (mmmaxTxnOps flMax2)
   \<and> (\<exists>wr\<in>set (syncUpdates (envA [] [resp [ev51, ev52, ev53, ev6]] okStore)).
        \<exists>seg r. sublist seg (Events wr)
          \<and> map Some [OpPut ''/b/3'' ''z''] = map (classify (runFlags flMax2)) seg
          \<and> (\<forall>ev\<in>set seg. revOf ev = r))"
proof -
  have h: "1 \<le> unat (mmmaxTxnOps flMax2)"
    "list_all ordered (syncUpdates (envA [] [resp [ev51, ev52, ev53, ev6]] okStore))"
    "DcTxn [OpPut ''/b/3'' ''z''] None
       \<in> set (trace (snd (snd (makeMirror (envA [] [resp [ev51, ev52, ev53, ev6]] okStore) flMax2))))"
    by (simp_all add: run_defs ordered_def)
  note t = C10_transactions_well_formed [OF h]
  from h(1,3) t show ?thesis by blast
qed

end
